theory Spec2Isabelle
  imports Main "HOL-Library.Word"
begin

section \<open>JavaScript strings as sequences of UTF-16 code units\<close>

text \<open>
  The decoder of \<^verbatim>\<open>src/utils/csvParser.ts\<close> works on JavaScript strings: \<^verbatim>\<open>row[i]\<close>,
  \<^verbatim>\<open>.length\<close>, \<^verbatim>\<open>.trim()\<close> and the regular expressions (no \<^verbatim>\<open>u\<close> flag) all see a string
  as a sequence of 16-bit code units. A string is a list of 16-bit words here; \<open>u16\<close> writes
  an ASCII literal as such a list.
\<close>

type_synonym jstring = "16 word list"

definition u16 :: "string \<Rightarrow> jstring" where
  "u16 s = map (\<lambda>c. of_nat (of_char c)) s"

text \<open>
  \<^verbatim>\<open>String.prototype.trim\<close> removes the code units of WhiteSpace and LineTerminator
  (ECMAScript 12.2, 12.3) from both ends.
\<close>

definition isWhiteSpace :: "16 word \<Rightarrow> bool" where
  "isWhiteSpace c \<longleftrightarrow>
     c = 0x0009 \<or> c = 0x000A \<or> c = 0x000B \<or> c = 0x000C \<or> c = 0x000D \<or> c = 0x0020 \<or>
     c = 0x00A0 \<or> c = 0x1680 \<or> (0x2000 \<le> c \<and> c \<le> 0x200A) \<or> c = 0x2028 \<or> c = 0x2029 \<or>
     c = 0x202F \<or> c = 0x205F \<or> c = 0x3000 \<or> c = 0xFEFF"

definition trimStart :: "jstring \<Rightarrow> jstring" where
  "trimStart s = dropWhile isWhiteSpace s"

definition trimEnd :: "jstring \<Rightarrow> jstring" where
  "trimEnd s = rev (dropWhile isWhiteSpace (rev s))"

definition trim :: "jstring \<Rightarrow> jstring" where
  "trim s = trimEnd (trimStart s)"

text \<open>\<^verbatim>\<open>data.replace(/\r\n/g, '\n')\<close>: every CR LF pair, scanning from the left, becomes LF.\<close>

fun replaceCrLf :: "jstring \<Rightarrow> jstring" where
  "replaceCrLf (c # d # s) =
     (if c = 0x0D \<and> d = 0x0A then 0x0A # replaceCrLf s else c # replaceCrLf (d # s))"
| "replaceCrLf s = s"

section \<open>The field splitter: \<^verbatim>\<open>parseCsvRow\<close>\<close>

text \<open>
  The \<^verbatim>\<open>for\<close> loop of \<^verbatim>\<open>parseCsvRow\<close> with its three variables \<^verbatim>\<open>fields\<close>,
  \<^verbatim>\<open>currentField\<close> and \<^verbatim>\<open>inQuotes\<close>; the first argument is the part of the row from
  index \<^verbatim>\<open>i\<close> on. The test \<^verbatim>\<open>i < row.length - 1 && row[i + 1] === '"'\<close> looks at the unit
  after the current one, and \<^verbatim>\<open>i++\<close> skips it.
\<close>

fun fieldLoop :: "jstring \<Rightarrow> jstring list \<Rightarrow> jstring \<Rightarrow> bool \<Rightarrow> jstring list" where
  "fieldLoop [] fields currentField inQuotes = fields @ [currentField]"
| "fieldLoop (c # s) fields currentField True =
     (if c = 0x22 then
        (case s of
           [] \<Rightarrow> fieldLoop s fields currentField False
         | d # s' \<Rightarrow>
             if d = 0x22 then fieldLoop s' fields (currentField @ [0x22]) True
             else fieldLoop s fields currentField False)
      else fieldLoop s fields (currentField @ [c]) True)"
| "fieldLoop (c # s) fields currentField False =
     (if c = 0x22 then fieldLoop s fields currentField True
      else if c = 0x2C then fieldLoop s (fields @ [currentField]) [] False
      else fieldLoop s fields (currentField @ [c]) False)"

definition parseCsvRow :: "jstring \<Rightarrow> jstring list" where
  "parseCsvRow row = fieldLoop row [] [] False"

section \<open>The row splitter: the first loop of \<^verbatim>\<open>parseCSV\<close>\<close>

text \<open>
  The loop over \<^verbatim>\<open>normalizedData\<close> with \<^verbatim>\<open>rows\<close>, \<^verbatim>\<open>currentRow\<close> and \<^verbatim>\<open>inQuotes\<close>.
  \<^verbatim>\<open>if (currentRow.trim())\<close> tests that the trimmed row is not the empty string. The
  equation for the empty input is the code after the loop (the last row).
\<close>

fun splitLoop :: "jstring \<Rightarrow> jstring list \<Rightarrow> jstring \<Rightarrow> bool \<Rightarrow> jstring list" where
  "splitLoop [] rows currentRow inQuotes =
     (if trim currentRow \<noteq> [] then rows @ [currentRow] else rows)"
| "splitLoop (c # s) rows currentRow inQuotes =
     (let inQuotes' = (if c = 0x22 then \<not> inQuotes else inQuotes) in
      if c = 0x0A \<and> \<not> inQuotes' then
        splitLoop s (if trim currentRow \<noteq> [] then rows @ [currentRow] else rows) [] inQuotes'
      else splitLoop s rows (currentRow @ [c]) inQuotes')"

definition normalizedData :: "jstring \<Rightarrow> jstring" where
  "normalizedData data = trim (replaceCrLf data)"

definition splitRows :: "jstring \<Rightarrow> jstring list" where
  "splitRows data = splitLoop (normalizedData data) [] [] False"

section \<open>The record builder: the second half of \<^verbatim>\<open>parseCSV\<close>\<close>

text \<open>
  \<^verbatim>\<open>storyObject\<close> is declared \<^verbatim>\<open>any\<close>: its properties hold strings, numbers or booleans,
  and a property that was never set reads as \<^verbatim>\<open>undefined\<close> (\<open>None\<close>). The numbers the
  decoder can store are the results of \<^verbatim>\<open>parseInt(...) || 0\<close>: doubles that are integers, or
  an infinity. A method call on a value of the wrong type throws a TypeError, the only
  exception the decoder's own code could raise.
\<close>

datatype jsnum = Finite int | PosInfinity | NegInfinity

datatype jsval = JStr jstring | JNum jsnum | JBool bool

datatype error = TypeError

type_synonym story = "jstring \<rightharpoonup> jsval"

fun truthy :: "jsval \<Rightarrow> bool" where
  "truthy (JStr s) = (s \<noteq> [])"
| "truthy (JNum x) = (x \<noteq> Finite 0)"
| "truthy (JBool b) = b"

text \<open>
  \<^verbatim>\<open>storyObject[key] = value\<close> on an object literal: the key \<^verbatim>\<open>__proto__\<close> reaches the
  setter inherited from \<^verbatim>\<open>Object.prototype\<close>, which ignores a value that is neither an
  object nor null; every other key becomes an own property.
\<close>

definition setProp :: "story \<Rightarrow> jstring \<Rightarrow> jsval \<Rightarrow> story" where
  "setProp obj key v = (if key = u16 ''__proto__'' then obj else obj(key \<mapsto> v))"

text \<open>\<^verbatim>\<open>values[i]\<close>: \<^verbatim>\<open>undefined\<close> beyond the end of the array.\<close>

definition arrayGet :: "'a list \<Rightarrow> nat \<Rightarrow> 'a option" where
  "arrayGet xs i = (if i < length xs then Some (xs ! i) else None)"

text \<open>The loop \<^verbatim>\<open>while (values.length < headerCount) values.push('')\<close>.\<close>

function padValues :: "jstring list \<Rightarrow> nat \<Rightarrow> jstring list" where
  "padValues values headerCount =
     (if length values < headerCount then padValues (values @ [[]]) headerCount else values)"
  by pat_completeness auto
termination
  by (relation "measure (\<lambda>(values, headerCount). headerCount - length values)") auto

declare padValues.simps [simp del]

text \<open>
  The double nearest to a natural number, ties to the even significand: a number below
  \<open>2\<^sup>5\<^sup>3\<close> is a double; a longer one keeps its 53 leading bits, rounded, and what reaches
  \<open>2\<^sup>1\<^sup>0\<^sup>2\<^sup>4\<close> overflows to infinity (\<open>None\<close>).
\<close>

fun bitLength :: "nat \<Rightarrow> nat" where
  "bitLength n = (if n = 0 then 0 else Suc (bitLength (n div 2)))"

declare bitLength.simps [simp del]

definition roundToDouble :: "nat \<Rightarrow> nat option" where
  "roundToDouble m =
     (if m < 2 ^ 53 then Some m
      else
        (let e = bitLength m - 53;
             q = m div 2 ^ e;
             r = m mod 2 ^ e;
             q' = (if 2 ^ e < 2 * r \<or> (2 * r = 2 ^ e \<and> odd q) then q + 1 else q);
             v = q' * 2 ^ e
         in if 2 ^ 1024 \<le> v then None else Some v))"

text \<open>
  \<^verbatim>\<open>parseInt(value, 10)\<close>: leading white space is skipped, one sign is read, then the
  longest run of decimal digits; no digit at all gives NaN (\<open>None\<close>). The result is the
  double nearest to the integer the digits denote, as the engines compute it (the standard
  lets an implementation approximate after the twentieth significant digit).
\<close>

definition isDigit :: "16 word \<Rightarrow> bool" where
  "isDigit c \<longleftrightarrow> 0x30 \<le> c \<and> c \<le> 0x39"

fun digitsValue :: "jstring \<Rightarrow> nat \<Rightarrow> nat" where
  "digitsValue [] acc = acc"
| "digitsValue (c # s) acc = digitsValue s (10 * acc + (unat c - 48))"

definition parseInt10 :: "jstring \<Rightarrow> jsnum option" where
  "parseInt10 s =
     (let t = trimStart s;
          neg = (case t of [] \<Rightarrow> False | c # _ \<Rightarrow> c = 0x2D);
          u = (case t of [] \<Rightarrow> [] | c # r \<Rightarrow> if c = 0x2B \<or> c = 0x2D then r else t);
          z = takeWhile isDigit u
      in if z = [] then None
         else (case roundToDouble (digitsValue z 0) of
                 None \<Rightarrow> Some (if neg then NegInfinity else PosInfinity)
               | Some v \<Rightarrow> Some (Finite (if neg then - int v else int v))))"

text \<open>
  \<^verbatim>\<open>value.toLowerCase() === 'true'\<close>. The only code units that lower-casing turns into
  one of the letters t, r, u, e are these letters and their ASCII capitals, so the
  comparison holds for exactly the four-unit strings below.
\<close>

definition lowerIs :: "16 word \<Rightarrow> 16 word \<Rightarrow> bool" where
  "lowerIs c l \<longleftrightarrow> c = l \<or> c + 0x20 = l \<and> 0x41 \<le> c \<and> c \<le> 0x5A"

definition lowerCaseIsTrue :: "jstring \<Rightarrow> bool" where
  "lowerCaseIsTrue s \<longleftrightarrow>
     (case s of
        [t, r, u, e] \<Rightarrow> lowerIs t 0x74 \<and> lowerIs r 0x72 \<and> lowerIs u 0x75 \<and> lowerIs e 0x65
      | _ \<Rightarrow> False)"

text \<open>
  The body of \<^verbatim>\<open>headers.forEach\<close> up to the assignment: \<^verbatim>\<open>values[i] || ''\<close>, then the two
  coercions in the order of the source. \<^verbatim>\<open>parseInt(...) || 0\<close> turns NaN and zero into 0.
\<close>

definition fieldValue :: "jstring \<Rightarrow> jstring option \<Rightarrow> error + jsval" where
  "fieldValue key raw =
     (let s0 = (case raw of None \<Rightarrow> [] | Some s \<Rightarrow> s);
          v1 = (if key = u16 ''score'' \<or> key = u16 ''num_comments'' then
                  JNum (case parseInt10 s0 of None \<Rightarrow> Finite 0 | Some x \<Rightarrow> x)
                else JStr s0)
      in if key = u16 ''is_self'' \<or> key = u16 ''over_18'' then
           (case v1 of JStr s \<Rightarrow> Inr (JBool (lowerCaseIsTrue s)) | _ \<Rightarrow> Inl TypeError)
         else Inr v1)"

fun forEachHeader :: "jstring list \<Rightarrow> nat \<Rightarrow> jstring list \<Rightarrow> story \<Rightarrow> error + story" where
  "forEachHeader [] i values obj = Inr obj"
| "forEachHeader (header # hs) i values obj =
     (case fieldValue header (arrayGet values i) of
        Inl e \<Rightarrow> Inl e
      | Inr v \<Rightarrow> forEachHeader hs (Suc i) values (setProp obj header v))"

text \<open>The decimal numeral of the row index, as the template literal prints it.\<close>

fun decimal :: "nat \<Rightarrow> jstring" where
  "decimal n =
     (if n < 10 then [of_nat (48 + n)] else decimal (n div 10) @ [of_nat (48 + n mod 10)])"

declare decimal.simps [simp del]

text \<open>
  \<^verbatim>\<open>storyObject.author || 'story'\<close> inside the template literal. The header loop stores
  only strings under \<^verbatim>\<open>author\<close>; the number and boolean cases print what the template
  would for an integer below \<open>10\<^sup>2\<^sup>1\<close>.
\<close>

definition authorOrStory :: "story \<Rightarrow> jstring" where
  "authorOrStory obj =
     (case obj (u16 ''author'') of
        None \<Rightarrow> u16 ''story''
      | Some v \<Rightarrow>
          if \<not> truthy v then u16 ''story''
          else (case v of
                  JStr s \<Rightarrow> s
                | JNum (Finite n) \<Rightarrow> (if n < 0 then u16 ''-'' else []) @ decimal (nat \<bar>n\<bar>)
                | JNum PosInfinity \<Rightarrow> u16 ''Infinity''
                | JNum NegInfinity \<Rightarrow> u16 ''-Infinity''
                | JBool b \<Rightarrow> u16 ''true''))"

text \<open>\<^verbatim>\<open>id.replace(/[^a-zA-Z0-9-_]/g, '')\<close> keeps the units of the character class.\<close>

definition idChar :: "16 word \<Rightarrow> bool" where
  "idChar c \<longleftrightarrow>
     (0x61 \<le> c \<and> c \<le> 0x7A) \<or> (0x41 \<le> c \<and> c \<le> 0x5A) \<or> (0x30 \<le> c \<and> c \<le> 0x39) \<or>
     c = 0x2D \<or> c = 0x5F"

definition sanitizeId :: "jstring \<Rightarrow> jstring" where
  "sanitizeId s = filter idChar s"

definition storyId :: "story \<Rightarrow> nat \<Rightarrow> jstring" where
  "storyId obj index = sanitizeId (authorOrStory obj @ u16 ''-'' @ decimal index)"

text \<open>The callback of \<^verbatim>\<open>rows.slice(1).map\<close>, for one row and its index.\<close>

definition buildStory :: "jstring list \<Rightarrow> jstring \<Rightarrow> nat \<Rightarrow> error + story" where
  "buildStory headers rowStr index =
     (let values = padValues (parseCsvRow (trim rowStr)) (length headers) in
      case forEachHeader headers 0 values Map.empty of
        Inl e \<Rightarrow> Inl e
      | Inr obj \<Rightarrow>
          (let ident = storyId obj index in
           Inr (obj(u16 ''id'' \<mapsto> JStr ident,
                    u16 ''status'' \<mapsto> JStr (u16 ''idle''),
                    u16 ''isSelected'' \<mapsto> JBool False,
                    u16 ''audioFileName'' \<mapsto> JStr (ident @ u16 ''_story.wav''),
                    u16 ''coverAudioFileName'' \<mapsto> JStr (ident @ u16 ''_cover.wav'')))))"

fun mapRows :: "jstring list \<Rightarrow> jstring list \<Rightarrow> nat \<Rightarrow> error + story list" where
  "mapRows headers [] index = Inr []"
| "mapRows headers (rowStr # rs) index =
     (case buildStory headers rowStr index of
        Inl e \<Rightarrow> Inl e
      | Inr st \<Rightarrow>
          (case mapRows headers rs (Suc index) of
             Inl e \<Rightarrow> Inl e
           | Inr sts \<Rightarrow> Inr (st # sts)))"

text \<open>
  The predicate of \<^verbatim>\<open>.filter\<close>: \<^verbatim>\<open>story.rewritten_story && story.rewritten_story.trim().length > 1\<close>.
  A falsy left operand decides; on a truthy one \<^verbatim>\<open>.trim()\<close> is called, which only a
  string has.
\<close>

definition keepStory :: "story \<Rightarrow> error + bool" where
  "keepStory st =
     (case st (u16 ''rewritten_story'') of
        None \<Rightarrow> Inr False
      | Some v \<Rightarrow>
          if \<not> truthy v then Inr False
          else (case v of JStr s \<Rightarrow> Inr (1 < length (trim s)) | _ \<Rightarrow> Inl TypeError))"

fun filterStories :: "story list \<Rightarrow> error + story list" where
  "filterStories [] = Inr []"
| "filterStories (st # sts) =
     (case keepStory st of
        Inl e \<Rightarrow> Inl e
      | Inr k \<Rightarrow>
          (case filterStories sts of
             Inl e \<Rightarrow> Inl e
           | Inr kept \<Rightarrow> Inr (if k then st # kept else kept)))"

text \<open>
  \<^verbatim>\<open>rows[0]\<close> of an empty array is \<^verbatim>\<open>undefined\<close>, whose \<^verbatim>\<open>.length\<close> \<^verbatim>\<open>parseCsvRow\<close> could
  not read; the test \<^verbatim>\<open>rows.length < 2\<close> returns before that.
\<close>

definition parseCSV :: "jstring \<Rightarrow> error + story list" where
  "parseCSV data =
     (let rows = splitRows data in
      if length rows < 2 then Inr []
      else (case rows of
              [] \<Rightarrow> Inl TypeError
            | row0 # rest \<Rightarrow>
                (let headers = map trim (parseCsvRow row0) in
                 case mapRows headers rest 0 of
                   Inl e \<Rightarrow> Inl e
                 | Inr stories \<Rightarrow> filterStories stories)))"

section \<open>Auxiliary notions for the proofs\<close>

text \<open>
  The invariant of the record builder that keeps \<^verbatim>\<open>.trim()\<close> in the filter from throwing:
  the property \<^verbatim>\<open>rewritten_story\<close> is either unset or holds a string.
\<close>

definition bodyIsText :: "story \<Rightarrow> bool" where
  "bodyIsText obj \<longleftrightarrow>
     (case obj (u16 ''rewritten_story'') of None \<Rightarrow> True | Some (JStr s) \<Rightarrow> True | _ \<Rightarrow> False)"

text \<open>
  The logical rows of a normalised blob in the words of the specification, before any row
  is dropped: the pieces between the line feeds that lie outside quoted spans, where every
  quote unit toggles the span. The row splitter of the source is compared with it below.
\<close>

fun logicalRows :: "jstring \<Rightarrow> jstring \<Rightarrow> bool \<Rightarrow> jstring list" where
  "logicalRows [] currentRow inQuotes = [currentRow]"
| "logicalRows (c # s) currentRow inQuotes =
     (let inQuotes' = (if c = 0x22 then \<not> inQuotes else inQuotes) in
      if c = 0x0A \<and> \<not> inQuotes' then currentRow # logicalRows s [] inQuotes'
      else logicalRows s (currentRow @ [c]) inQuotes')"

text \<open>Names for the header tests of the source and for the properties the decoder sets itself.\<close>

abbreviation numericKey :: "jstring \<Rightarrow> bool" where
  "numericKey key \<equiv> key = u16 ''score'' \<or> key = u16 ''num_comments''"

abbreviation flagKey :: "jstring \<Rightarrow> bool" where
  "flagKey key \<equiv> key = u16 ''is_self'' \<or> key = u16 ''over_18''"

abbreviation stateKey :: "jstring \<Rightarrow> bool" where
  "stateKey key \<equiv>
     key = u16 ''id'' \<or> key = u16 ''status'' \<or> key = u16 ''isSelected'' \<or>
     key = u16 ''audioFileName'' \<or> key = u16 ''coverAudioFileName''"

text \<open>The test of the filter, as the specification words it.\<close>

abbreviation bodyKept :: "story \<Rightarrow> bool" where
  "bodyKept st \<equiv> \<exists>s. st (u16 ''rewritten_story'') = Some (JStr s) \<and> 1 < length (trim s)"

text \<open>The inside of a double-quoted field: the content with every quote unit doubled.\<close>

abbreviation escapeQuotes :: "jstring \<Rightarrow> jstring" where
  "escapeQuotes f \<equiv> concat (map (\<lambda>c. if c = 0x22 then [0x22, 0x22] else [c]) f)"

text \<open>
  A field as it is written in a row: plain (\<open>Inl\<close>, the units as they are) or double-quoted
  (\<open>Inr\<close>, the content between two quotes with its own quotes doubled); and what it denotes.
\<close>

abbreviation csvField :: "jstring + jstring \<Rightarrow> jstring" where
  "csvField x \<equiv> (case x of Inl g \<Rightarrow> g | Inr f \<Rightarrow> 0x22 # escapeQuotes f @ [0x22])"

abbreviation fieldContent :: "jstring + jstring \<Rightarrow> jstring" where
  "fieldContent x \<equiv> (case x of Inl g \<Rightarrow> g | Inr f \<Rightarrow> f)"

section \<open>The record builder never throws\<close>

lemma padValues_replicate: "padValues vs n = vs @ replicate (n - length vs) []"
proof (induction vs n rule: padValues.induct)
  case (1 vs n)
  show ?case
  proof (cases "length vs < n")
    case True
    then have "padValues vs n = padValues (vs @ [[]]) n"
      by (simp add: padValues.simps [of vs])
    also have "\<dots> = (vs @ [[]]) @ replicate (n - length (vs @ [[]])) []"
      using 1 True by simp
    also have "\<dots> = vs @ replicate (Suc (n - Suc (length vs))) []"
      by simp
    also have "Suc (n - Suc (length vs)) = n - length vs"
      using True by simp
    finally show ?thesis .
  next
    case False
    then show ?thesis by (simp add: padValues.simps [of vs])
  qed
qed

lemma fieldValue_total: "\<exists>v. fieldValue key raw = Inr v"
  by (auto simp: fieldValue_def u16_def Let_def)

lemma forEachHeader_total:
  "bodyIsText obj \<Longrightarrow> \<exists>obj'. forEachHeader hs i vs obj = Inr obj' \<and> bodyIsText obj'"
proof (induction hs arbitrary: i obj)
  case Nil
  then show ?case by simp
next
  case (Cons h hs)
  obtain v where v: "fieldValue h (arrayGet vs i) = Inr v"
    using fieldValue_total by blast
  have "bodyIsText (setProp obj h v)"
  proof (cases "h = u16 ''rewritten_story''")
    case True
    with v show ?thesis
      by (auto simp: fieldValue_def setProp_def bodyIsText_def u16_def)
  next
    case False
    with Cons.prems show ?thesis by (simp add: setProp_def bodyIsText_def)
  qed
  from Cons.IH [OF this, of "Suc i"] v show ?case by simp
qed

lemma body_key_fresh:
  "u16 ''rewritten_story'' \<noteq> u16 ''id''"
  "u16 ''rewritten_story'' \<noteq> u16 ''status''"
  "u16 ''rewritten_story'' \<noteq> u16 ''isSelected''"
  "u16 ''rewritten_story'' \<noteq> u16 ''audioFileName''"
  "u16 ''rewritten_story'' \<noteq> u16 ''coverAudioFileName''"
  by (simp_all add: u16_def)

lemma state_keys_distinct:
  "u16 ''id'' \<noteq> u16 ''status''" "u16 ''id'' \<noteq> u16 ''isSelected''"
  "u16 ''id'' \<noteq> u16 ''audioFileName''" "u16 ''id'' \<noteq> u16 ''coverAudioFileName''"
  "u16 ''status'' \<noteq> u16 ''isSelected''" "u16 ''status'' \<noteq> u16 ''audioFileName''"
  "u16 ''status'' \<noteq> u16 ''coverAudioFileName''"
  "u16 ''isSelected'' \<noteq> u16 ''audioFileName''"
  "u16 ''isSelected'' \<noteq> u16 ''coverAudioFileName''"
  "u16 ''audioFileName'' \<noteq> u16 ''coverAudioFileName''"
  by (simp_all add: u16_def)

text \<open>What one call of the \<^verbatim>\<open>map\<close> callback returns, in terms of the object the header loop built.\<close>

lemma buildStory_result:
  "\<exists>obj. forEachHeader hs 0 (padValues (parseCsvRow (trim row)) (length hs)) Map.empty = Inr obj \<and>
     bodyIsText obj \<and>
     buildStory hs row k =
       Inr (obj(u16 ''id'' \<mapsto> JStr (storyId obj k),
                u16 ''status'' \<mapsto> JStr (u16 ''idle''),
                u16 ''isSelected'' \<mapsto> JBool False,
                u16 ''audioFileName'' \<mapsto> JStr (storyId obj k @ u16 ''_story.wav''),
                u16 ''coverAudioFileName'' \<mapsto> JStr (storyId obj k @ u16 ''_cover.wav'')))"
proof -
  have "bodyIsText Map.empty" by (simp add: bodyIsText_def)
  from forEachHeader_total [OF this]
  obtain obj where
    obj: "forEachHeader hs 0 (padValues (parseCsvRow (trim row)) (length hs)) Map.empty = Inr obj"
    and b: "bodyIsText obj" by blast
  have "buildStory hs row k =
       Inr (obj(u16 ''id'' \<mapsto> JStr (storyId obj k),
                u16 ''status'' \<mapsto> JStr (u16 ''idle''),
                u16 ''isSelected'' \<mapsto> JBool False,
                u16 ''audioFileName'' \<mapsto> JStr (storyId obj k @ u16 ''_story.wav''),
                u16 ''coverAudioFileName'' \<mapsto> JStr (storyId obj k @ u16 ''_cover.wav'')))"
    unfolding buildStory_def Let_def obj by simp
  with obj b show ?thesis by (intro exI [of _ obj]) simp
qed

lemma buildStory_total: "\<exists>st. buildStory hs row k = Inr st \<and> bodyIsText st"
proof -
  from buildStory_result [of hs row k] obtain obj where b: "bodyIsText obj" and
    r: "buildStory hs row k =
       Inr (obj(u16 ''id'' \<mapsto> JStr (storyId obj k),
                u16 ''status'' \<mapsto> JStr (u16 ''idle''),
                u16 ''isSelected'' \<mapsto> JBool False,
                u16 ''audioFileName'' \<mapsto> JStr (storyId obj k @ u16 ''_story.wav''),
                u16 ''coverAudioFileName'' \<mapsto> JStr (storyId obj k @ u16 ''_cover.wav'')))"
    by blast
  have "bodyIsText (obj(u16 ''id'' \<mapsto> JStr (storyId obj k),
                u16 ''status'' \<mapsto> JStr (u16 ''idle''),
                u16 ''isSelected'' \<mapsto> JBool False,
                u16 ''audioFileName'' \<mapsto> JStr (storyId obj k @ u16 ''_story.wav''),
                u16 ''coverAudioFileName'' \<mapsto> JStr (storyId obj k @ u16 ''_cover.wav'')))"
    using b by (simp add: bodyIsText_def body_key_fresh)
  with r show ?thesis by simp
qed

lemma buildStory_fields:
  assumes "buildStory hs row k = Inr st"
  shows "\<exists>obj. st (u16 ''id'') = Some (JStr (storyId obj k)) \<and>
           st (u16 ''status'') = Some (JStr (u16 ''idle'')) \<and>
           st (u16 ''isSelected'') = Some (JBool False) \<and>
           st (u16 ''audioFileName'') = Some (JStr (storyId obj k @ u16 ''_story.wav'')) \<and>
           st (u16 ''coverAudioFileName'') = Some (JStr (storyId obj k @ u16 ''_cover.wav''))"
proof -
  from buildStory_result [of hs row k] assms obtain obj where
    "st = obj(u16 ''id'' \<mapsto> JStr (storyId obj k),
                u16 ''status'' \<mapsto> JStr (u16 ''idle''),
                u16 ''isSelected'' \<mapsto> JBool False,
                u16 ''audioFileName'' \<mapsto> JStr (storyId obj k @ u16 ''_story.wav''),
                u16 ''coverAudioFileName'' \<mapsto> JStr (storyId obj k @ u16 ''_cover.wav''))"
    by auto
  then show ?thesis using state_keys_distinct by (intro exI [of _ obj]) simp
qed

lemma mapRows_total: "\<exists>sts. mapRows hs rs k = Inr sts \<and> (\<forall>st\<in>set sts. bodyIsText st)"
proof (induction rs arbitrary: k)
  case Nil
  show ?case by simp
next
  case (Cons r rs)
  obtain st where st: "buildStory hs r k = Inr st" "bodyIsText st"
    using buildStory_total by blast
  obtain sts where sts: "mapRows hs rs (Suc k) = Inr sts" "\<forall>st\<in>set sts. bodyIsText st"
    using Cons.IH by blast
  show ?case using st sts by simp
qed

lemma mapRows_nth:
  "mapRows hs rs k = Inr sts \<Longrightarrow>
   length sts = length rs \<and> (\<forall>j<length rs. buildStory hs (rs ! j) (k + j) = Inr (sts ! j))"
proof (induction rs arbitrary: k sts)
  case Nil
  then show ?case by simp
next
  case (Cons r rs)
  from Cons.prems obtain st sts' where
    st: "buildStory hs r k = Inr st" and sts': "mapRows hs rs (Suc k) = Inr sts'"
    and eq: "sts = st # sts'"
    by (auto split: sum.splits)
  from Cons.IH [OF sts'] have len: "length sts' = length rs"
    and nth: "\<forall>j<length rs. buildStory hs (rs ! j) (Suc k + j) = Inr (sts' ! j)" by simp_all
  show ?case
  proof (intro conjI allI impI)
    show "length sts = length (r # rs)" using eq len by simp
  next
    fix j assume "j < length (r # rs)"
    then show "buildStory hs ((r # rs) ! j) (k + j) = Inr (sts ! j)"
      using st nth eq by (cases j) simp_all
  qed
qed

lemma keepStory_text:
  "bodyIsText st \<Longrightarrow>
   keepStory st = Inr (\<exists>s. st (u16 ''rewritten_story'') = Some (JStr s) \<and> 1 < length (trim s))"
  by (auto simp: keepStory_def bodyIsText_def trim_def trimStart_def trimEnd_def
           split: option.splits jsval.splits)

lemma filterStories_text:
  "\<forall>st\<in>set sts. bodyIsText st \<Longrightarrow>
   filterStories sts =
     Inr (filter (\<lambda>st. \<exists>s. st (u16 ''rewritten_story'') = Some (JStr s) \<and> 1 < length (trim s)) sts)"
  by (induction sts) (simp_all add: keepStory_text)

text \<open>With a header row and at least one data row, the decoder maps and then filters.\<close>

lemma parseCSV_rows:
  assumes rows: "splitRows data = row0 # row1 # rest"
  shows "\<exists>built. mapRows (map trim (parseCsvRow row0)) (row1 # rest) 0 = Inr built \<and>
     (\<forall>st\<in>set built. bodyIsText st) \<and>
     parseCSV data =
       Inr (filter (\<lambda>st. \<exists>s. st (u16 ''rewritten_story'') = Some (JStr s) \<and> 1 < length (trim s)) built)"
proof -
  obtain built where b: "mapRows (map trim (parseCsvRow row0)) (row1 # rest) 0 = Inr built"
    "\<forall>st\<in>set built. bodyIsText st"
    using mapRows_total by blast
  have "parseCSV data = filterStories built"
    using rows b(1) by (simp add: parseCSV_def Let_def del: mapRows.simps)
  with b filterStories_text [OF b(2)] show ?thesis by simp
qed

lemma parseCSV_built:
  "\<exists>hs rs built. mapRows hs rs 0 = Inr built \<and>
     parseCSV data =
       Inr (filter (\<lambda>st. \<exists>s. st (u16 ''rewritten_story'') = Some (JStr s) \<and> 1 < length (trim s)) built)"
proof (cases "splitRows data")
  case Nil
  then have "mapRows [] [] 0 = Inr [] \<and> parseCSV data =
       Inr (filter (\<lambda>st. \<exists>s. st (u16 ''rewritten_story'') = Some (JStr s) \<and> 1 < length (trim s)) [])"
    by (simp add: parseCSV_def)
  then show ?thesis by blast
next
  case (Cons row0 rs)
  show ?thesis
  proof (cases rs)
    case Nil
    with Cons have "mapRows [] [] 0 = Inr [] \<and> parseCSV data =
       Inr (filter (\<lambda>st. \<exists>s. st (u16 ''rewritten_story'') = Some (JStr s) \<and> 1 < length (trim s)) [])"
      by (simp add: parseCSV_def)
    then show ?thesis by blast
  next
    case (Cons row1 rest)
    with \<open>splitRows data = row0 # rs\<close> parseCSV_rows [of data row0 row1 rest]
    show ?thesis by blast
  qed
qed

lemma parseCSV_total: "\<exists>stories. parseCSV data = Inr stories"
  using parseCSV_built [of data] by blast

section \<open>Where a value of a row ends up in the record\<close>

lemma forEachHeader_unchanged:
  "key \<notin> set hs \<Longrightarrow> forEachHeader hs i vs obj = Inr obj' \<Longrightarrow> obj' key = obj key"
proof (induction hs arbitrary: i obj)
  case Nil
  then show ?case by simp
next
  case (Cons h hs)
  from Cons.prems(2) obtain v where
    v: "fieldValue h (arrayGet vs i) = Inr v" and
    r: "forEachHeader hs (Suc i) vs (setProp obj h v) = Inr obj'"
    by (auto split: sum.splits)
  from Cons.prems(1) have "key \<notin> set hs" "key \<noteq> h" by auto
  with Cons.IH [OF _ r] show ?case by (simp add: setProp_def)
qed

text \<open>
  The header loop leaves under a key the value of the last column of that name; the key
  \<^verbatim>\<open>__proto__\<close> is never stored.
\<close>

lemma forEachHeader_stores:
  assumes "forEachHeader hs i vs obj = Inr obj'"
    and "j < length hs" and "key = hs ! j" and "key \<notin> set (drop (Suc j) hs)"
    and "key \<noteq> u16 ''__proto__''"
  shows "fieldValue key (arrayGet vs (i + j)) = Inr (the (obj' key)) \<and> obj' key \<noteq> None"
  using assms
proof (induction hs arbitrary: i obj j)
  case Nil
  then show ?case by simp
next
  case (Cons h hs)
  from Cons.prems(1) obtain v where
    v: "fieldValue h (arrayGet vs i) = Inr v" and
    r: "forEachHeader hs (Suc i) vs (setProp obj h v) = Inr obj'"
    by (auto split: sum.splits)
  show ?case
  proof (cases j)
    case 0
    with Cons.prems have h: "key = h" and fresh: "key \<notin> set hs" by simp_all
    from forEachHeader_unchanged [OF fresh r] have "obj' key = setProp obj h v key" .
    with h Cons.prems(5) have "obj' key = Some v" by (simp add: setProp_def)
    with v h 0 show ?thesis by simp
  next
    case (Suc j')
    with Cons.prems have "j' < length hs" "key = hs ! j'" "key \<notin> set (drop (Suc j') hs)"
      by simp_all
    from Cons.IH [OF r this Cons.prems(5)] Suc show ?thesis by simp
  qed
qed

lemma stateKey_fresh:
  assumes "\<not> stateKey key"
  shows "(obj(u16 ''id'' \<mapsto> a, u16 ''status'' \<mapsto> b, u16 ''isSelected'' \<mapsto> c,
              u16 ''audioFileName'' \<mapsto> d, u16 ''coverAudioFileName'' \<mapsto> e)) key = obj key"
  using assms by simp

lemma buildStory_stores:
  assumes b: "buildStory hs row k = Inr st"
    and j: "j < length hs" and key: "key = hs ! j" and fresh: "key \<notin> set (drop (Suc j) hs)"
    and proto: "key \<noteq> u16 ''__proto__''" and own: "\<not> stateKey key"
  shows "\<exists>v. fieldValue key (arrayGet (padValues (parseCsvRow (trim row)) (length hs)) j) = Inr v \<and>
             st key = Some v"
proof -
  from buildStory_result [of hs row k] obtain obj where
    obj: "forEachHeader hs 0 (padValues (parseCsvRow (trim row)) (length hs)) Map.empty = Inr obj"
    and st: "buildStory hs row k =
       Inr (obj(u16 ''id'' \<mapsto> JStr (storyId obj k),
                u16 ''status'' \<mapsto> JStr (u16 ''idle''),
                u16 ''isSelected'' \<mapsto> JBool False,
                u16 ''audioFileName'' \<mapsto> JStr (storyId obj k @ u16 ''_story.wav''),
                u16 ''coverAudioFileName'' \<mapsto> JStr (storyId obj k @ u16 ''_cover.wav'')))"
    by blast
  from b st have "st = obj(u16 ''id'' \<mapsto> JStr (storyId obj k),
                u16 ''status'' \<mapsto> JStr (u16 ''idle''),
                u16 ''isSelected'' \<mapsto> JBool False,
                u16 ''audioFileName'' \<mapsto> JStr (storyId obj k @ u16 ''_story.wav''),
                u16 ''coverAudioFileName'' \<mapsto> JStr (storyId obj k @ u16 ''_cover.wav''))"
    by simp
  then have "st key = obj key"
    by (simp only: stateKey_fresh [OF own])
  moreover from forEachHeader_stores [OF obj j key fresh proto]
  have "fieldValue key (arrayGet (padValues (parseCsvRow (trim row)) (length hs)) j) =
          Inr (the (obj key))" "obj key \<noteq> None"
    by simp_all
  ultimately show ?thesis by auto
qed

lemma padded_value:
  "j < length vs \<Longrightarrow> arrayGet (padValues vs n) j = Some (vs ! j)"
  by (simp add: arrayGet_def padValues_replicate nth_append)

text \<open>
  For every blob: the record built from data row \<open>i\<close> holds, under the trimmed name of
  column \<open>j\<close>, what the header loop computes from the value at position \<open>j\<close> of the trimmed
  and padded row, provided no later column has the same name and the name is neither
  \<^verbatim>\<open>__proto__\<close> nor one of the properties the decoder sets itself.
\<close>

lemma built_record_field:
  assumes rows: "splitRows data = row0 # rs" and i: "i < length rs"
    and j: "j < length (parseCsvRow row0)" and key: "key = trim (parseCsvRow row0 ! j)"
    and fresh: "key \<notin> set (drop (Suc j) (map trim (parseCsvRow row0)))"
    and proto: "key \<noteq> u16 ''__proto__''" and own: "\<not> stateKey key"
  shows "\<exists>built v.
           mapRows (map trim (parseCsvRow row0)) rs 0 = Inr built \<and> length built = length rs \<and>
           parseCSV data = Inr (filter bodyKept built) \<and>
           fieldValue key
             (arrayGet (padValues (parseCsvRow (trim (rs ! i))) (length (parseCsvRow row0))) j) = Inr v \<and>
           (built ! i) key = Some v \<and>
           (bodyKept (built ! i) \<longrightarrow>
              (\<exists>stories. parseCSV data = Inr stories \<and> built ! i \<in> set stories))"
proof -
  from i obtain row1 rest where rs: "rs = row1 # rest" by (cases rs) auto
  from parseCSV_rows [of data row0 row1 rest] rows rs obtain built where
    b: "mapRows (map trim (parseCsvRow row0)) rs 0 = Inr built"
    and p: "parseCSV data = Inr (filter bodyKept built)"
    by auto
  from mapRows_nth [OF b] i have l: "length built = length rs"
    and s: "buildStory (map trim (parseCsvRow row0)) (rs ! i) i = Inr (built ! i)"
    by simp_all
  from j key have "j < length (map trim (parseCsvRow row0))" "key = map trim (parseCsvRow row0) ! j"
    by simp_all
  from buildStory_stores [OF s this fresh proto own] obtain v where
    v: "fieldValue key
          (arrayGet (padValues (parseCsvRow (trim (rs ! i))) (length (parseCsvRow row0))) j) = Inr v"
      "(built ! i) key = Some v"
    by auto
  have r: "\<exists>stories. parseCSV data = Inr stories \<and> built ! i \<in> set stories"
    if "bodyKept (built ! i)"
  proof -
    from i l have "built ! i \<in> set built" by simp
    with that have "built ! i \<in> set (filter bodyKept built)" by simp
    with p show ?thesis by blast
  qed
  from b l p v r show ?thesis by blast
qed

section \<open>The shape of an identifier\<close>

lemma digit_unat: "d < 10 \<Longrightarrow> unat (of_nat (48 + d) :: 16 word) = 48 + d"
  by (simp add: unat_of_nat del: of_nat_add)

lemma digit_isDigit: "d < 10 \<Longrightarrow> isDigit (of_nat (48 + d))"
  by (simp add: isDigit_def word_le_nat_alt unat_of_nat del: of_nat_add)

lemma decimal_digits: "\<forall>c\<in>set (decimal n). isDigit c"
proof (induction n rule: decimal.induct)
  case (1 n)
  show ?case
  proof (cases "n < 10")
    case True
    then show ?thesis by (simp add: decimal.simps [of n] digit_isDigit del: of_nat_add)
  next
    case False
    have "n mod 10 < 10" by simp
    with False 1 show ?thesis
      by (simp add: decimal.simps [of n] digit_isDigit del: of_nat_add)
  qed
qed

lemma digitsValue_append: "digitsValue (s @ t) acc = digitsValue t (digitsValue s acc)"
  by (induction s arbitrary: acc) simp_all

text \<open>Reading a decimal numeral back gives the number: the numerals of two indices differ.\<close>

lemma digitsValue_decimal: "digitsValue (decimal n) 0 = n"
proof (induction n rule: decimal.induct)
  case (1 n)
  show ?case
  proof (cases "n < 10")
    case True
    then show ?thesis using digit_unat [of n] by (simp add: decimal.simps [of n] del: of_nat_add)
  next
    case False
    have "n mod 10 < 10" by simp
    from digit_unat [OF this] False 1 show ?thesis
      by (simp add: decimal.simps [of n] digitsValue_append del: of_nat_add)
  qed
qed

lemma decimal_inject: "decimal m = decimal n \<Longrightarrow> m = n"
  by (metis digitsValue_decimal)

lemma decimal_small: "n < 10 \<Longrightarrow> decimal n = [of_nat (48 + n)]"
  by (simp add: decimal.simps [of n])

lemma isDigit_idChar: "isDigit c \<Longrightarrow> idChar c"
  by (simp add: isDigit_def idChar_def)

lemma isDigit_not_hyphen: "isDigit c \<Longrightarrow> c \<noteq> 0x2D"
  by (auto simp: isDigit_def)

lemma storyId_shape: "storyId obj k = sanitizeId (authorOrStory obj) @ 0x2D # decimal k"
proof -
  have "filter idChar (decimal k) = decimal k"
    using decimal_digits [of k] by (simp add: isDigit_idChar)
  then show ?thesis
    by (simp add: storyId_def sanitizeId_def u16_def idChar_def)
qed

lemma storyId_chars: "\<forall>c\<in>set (storyId obj k). idChar c"
  by (auto simp: storyId_def sanitizeId_def)

lemma last_separator_split:
  assumes "a @ x # d = b @ x # e" and "x \<notin> set d" and "x \<notin> set e"
  shows "d = e"
proof -
  have "takeWhile (\<lambda>c. c \<noteq> x) (rev (a @ x # d)) = rev d"
    using assms(2) by (auto simp: takeWhile_tail)
  moreover have "takeWhile (\<lambda>c. c \<noteq> x) (rev (b @ x # e)) = rev e"
    using assms(3) by (auto simp: takeWhile_tail)
  ultimately show ?thesis using assms(1) by (metis rev_is_rev_conv)
qed

lemma storyId_inject:
  assumes eq: "storyId obj j = storyId obj' k"
  shows "j = k"
proof -
  have "(0x2D::16 word) \<notin> set (decimal j)" "(0x2D::16 word) \<notin> set (decimal k)"
    using decimal_digits isDigit_not_hyphen by blast+
  with eq have "decimal j = decimal k"
    unfolding storyId_shape by (rule last_separator_split)
  then show ?thesis by (rule decimal_inject)
qed

lemma mapRows_ids_distinct:
  assumes "mapRows hs rs k = Inr sts"
  shows "distinct (map (\<lambda>st. st (u16 ''id'')) sts)"
proof -
  from mapRows_nth [OF assms] have len: "length sts = length rs"
    and nth: "\<And>j. j < length rs \<Longrightarrow> buildStory hs (rs ! j) (k + j) = Inr (sts ! j)" by simp_all
  have "(sts ! i) (u16 ''id'') \<noteq> (sts ! j) (u16 ''id'')"
    if "i < length rs" "j < length rs" "i \<noteq> j" for i j
  proof
    assume eq: "(sts ! i) (u16 ''id'') = (sts ! j) (u16 ''id'')"
    from buildStory_fields [OF nth [OF that(1)]] obtain oi where
      "(sts ! i) (u16 ''id'') = Some (JStr (storyId oi (k + i)))" by blast
    moreover from buildStory_fields [OF nth [OF that(2)]] obtain oj where
      "(sts ! j) (u16 ''id'') = Some (JStr (storyId oj (k + j)))" by blast
    ultimately have "storyId oi (k + i) = storyId oj (k + j)" using eq by simp
    then have "k + i = k + j" by (rule storyId_inject)
    with that(3) show False by simp
  qed
  then show ?thesis by (simp add: distinct_conv_nth len)
qed

section \<open>Evaluating the decoder on sample blobs\<close>

lemmas decoder_eval =
  parseCSV_def splitRows_def normalizedData_def trim_def trimStart_def trimEnd_def
  isWhiteSpace_def parseCsvRow_def buildStory_def padValues_replicate arrayGet_def
  fieldValue_def setProp_def storyId_def sanitizeId_def idChar_def authorOrStory_def
  keepStory_def decimal_small u16_def Let_def

section \<open>Identifiers within a batch\<close>

lemma sample_ids:
  "map_sum id (map (\<lambda>st. st (u16 ''id'')))
     (parseCSV (u16 ''author,rewritten_story\<newline>ann,first tale\<newline>b.ob,second tale'')) =
   Inr [Some (JStr (u16 ''ann-0'')), Some (JStr (u16 ''bob-1''))]"
  by (simp add: decoder_eval)

text \<open>
  C6. In one decoded batch the identifiers of the records are pairwise distinct, and every
  identifier is a string made only of the units of the class \<^verbatim>\<open>[A-Za-z0-9_-]\<close>: it is the
  author (or \<^verbatim>\<open>story\<close>), a hyphen and the row index, with every other unit removed.
\<close>

theorem parseCSV_ids_distinct_and_clean:
  assumes "parseCSV data = Inr stories"
  shows "distinct (map (\<lambda>st. st (u16 ''id'')) stories) \<and>
         (\<forall>st\<in>set stories. \<exists>ident. st (u16 ''id'') = Some (JStr ident) \<and> (\<forall>c\<in>set ident. idChar c))"
proof -
  from parseCSV_built [of data] assms obtain hs rs built where
    built: "mapRows hs rs 0 = Inr built" and
    out: "stories = filter (\<lambda>st. \<exists>s. st (u16 ''rewritten_story'') = Some (JStr s) \<and> 1 < length (trim s)) built"
    by auto
  have "distinct (map (\<lambda>st. st (u16 ''id'')) stories)"
    unfolding out using mapRows_ids_distinct [OF built] by (rule distinct_map_filter)
  moreover have "\<exists>ident. st (u16 ''id'') = Some (JStr ident) \<and> (\<forall>c\<in>set ident. idChar c)"
    if "st \<in> set stories" for st
  proof -
    from that out have "st \<in> set built" by simp
    then obtain j where j: "j < length built" "built ! j = st" by (auto simp: in_set_conv_nth)
    with mapRows_nth [OF built] have "buildStory hs (rs ! j) (0 + j) = Inr st" by auto
    from buildStory_fields [OF this] storyId_chars show ?thesis by blast
  qed
  ultimately show ?thesis by blast
qed

theorem parseCSV_ids_distinct_and_clean_witness:
  "\<exists>stories.
     parseCSV (u16 ''author,rewritten_story\<newline>ann,first tale\<newline>b.ob,second tale'') = Inr stories \<and>
     map (\<lambda>st. st (u16 ''id'')) stories = [Some (JStr (u16 ''ann-0'')), Some (JStr (u16 ''bob-1''))] \<and>
     distinct (map (\<lambda>st. st (u16 ''id'')) stories) \<and>
     (\<forall>st\<in>set stories. \<exists>ident. st (u16 ''id'') = Some (JStr ident) \<and> (\<forall>c\<in>set ident. idChar c))"
proof -
  obtain stories where
    p: "parseCSV (u16 ''author,rewritten_story\<newline>ann,first tale\<newline>b.ob,second tale'') = Inr stories"
    using parseCSV_total by blast
  have ids: "map (\<lambda>st. st (u16 ''id'')) stories = [Some (JStr (u16 ''ann-0'')), Some (JStr (u16 ''bob-1''))]"
    using sample_ids unfolding p by simp
  from parseCSV_ids_distinct_and_clean [OF p] have
    "parseCSV (u16 ''author,rewritten_story\<newline>ann,first tale\<newline>b.ob,second tale'') = Inr stories \<and>
     map (\<lambda>st. st (u16 ''id'')) stories = [Some (JStr (u16 ''ann-0'')), Some (JStr (u16 ''bob-1''))] \<and>
     distinct (map (\<lambda>st. st (u16 ''id'')) stories) \<and>
     (\<forall>st\<in>set stories. \<exists>ident. st (u16 ''id'') = Some (JStr ident) \<and> (\<forall>c\<in>set ident. idChar c))"
    by (intro conjI) (rule p, rule ids, erule conjunct1, erule conjunct2)
  then show ?thesis by (rule exI)
qed

section \<open>The state the decoder gives every record\<close>

text \<open>
  C10. Every record the decoder returns has \<^verbatim>\<open>status\<close> \<^verbatim>\<open>'idle'\<close>, \<^verbatim>\<open>isSelected\<close> false,
  \<^verbatim>\<open>audioFileName\<close> equal to its identifier followed by \<^verbatim>\<open>_story.wav\<close> and
  \<^verbatim>\<open>coverAudioFileName\<close> equal to its identifier followed by \<^verbatim>\<open>_cover.wav\<close>; the decoder
  sets them itself, after the header loop, so a column of the same name does not change them.
\<close>

theorem parseCSV_initial_state:
  assumes "parseCSV data = Inr stories" and "st \<in> set stories"
  shows "\<exists>ident. st (u16 ''id'') = Some (JStr ident) \<and>
           st (u16 ''status'') = Some (JStr (u16 ''idle'')) \<and>
           st (u16 ''isSelected'') = Some (JBool False) \<and>
           st (u16 ''audioFileName'') = Some (JStr (ident @ u16 ''_story.wav'')) \<and>
           st (u16 ''coverAudioFileName'') = Some (JStr (ident @ u16 ''_cover.wav''))"
proof -
  from parseCSV_built [of data] assms(1) obtain hs rs built where
    built: "mapRows hs rs 0 = Inr built" and
    out: "stories = filter (\<lambda>st. \<exists>s. st (u16 ''rewritten_story'') = Some (JStr s) \<and> 1 < length (trim s)) built"
    by auto
  from assms(2) out have "st \<in> set built" by simp
  then obtain j where j: "j < length built" "built ! j = st" by (auto simp: in_set_conv_nth)
  with mapRows_nth [OF built] have "buildStory hs (rs ! j) (0 + j) = Inr st" by auto
  from buildStory_fields [OF this] show ?thesis by blast
qed

lemma sample_status_column:
  "map_sum id (map (\<lambda>st. st (u16 ''id'')))
     (parseCSV (u16 ''status,rewritten_story\<newline>ready,a tale'')) =
   Inr [Some (JStr (u16 ''story-0''))]"
  by (simp add: decoder_eval)

theorem parseCSV_initial_state_witness:
  "\<exists>stories st.
     parseCSV (u16 ''status,rewritten_story\<newline>ready,a tale'') = Inr stories \<and> st \<in> set stories \<and>
     st (u16 ''id'') = Some (JStr (u16 ''story-0'')) \<and>
     (\<exists>ident. st (u16 ''id'') = Some (JStr ident) \<and>
        st (u16 ''status'') = Some (JStr (u16 ''idle'')) \<and>
        st (u16 ''isSelected'') = Some (JBool False) \<and>
        st (u16 ''audioFileName'') = Some (JStr (ident @ u16 ''_story.wav'')) \<and>
        st (u16 ''coverAudioFileName'') = Some (JStr (ident @ u16 ''_cover.wav'')))"
proof -
  obtain stories where
    p: "parseCSV (u16 ''status,rewritten_story\<newline>ready,a tale'') = Inr stories"
    using parseCSV_total by blast
  have "map (\<lambda>st. st (u16 ''id'')) stories = [Some (JStr (u16 ''story-0''))]"
    using sample_status_column unfolding p by simp
  then obtain st where st: "stories = [st]" and i: "st (u16 ''id'') = Some (JStr (u16 ''story-0''))"
    by (auto simp: map_eq_Cons_conv)
  then have m: "st \<in> set stories" by simp
  from parseCSV_initial_state [OF p m] have
    "parseCSV (u16 ''status,rewritten_story\<newline>ready,a tale'') = Inr stories \<and> st \<in> set stories \<and>
     st (u16 ''id'') = Some (JStr (u16 ''story-0'')) \<and>
     (\<exists>ident. st (u16 ''id'') = Some (JStr ident) \<and>
        st (u16 ''status'') = Some (JStr (u16 ''idle'')) \<and>
        st (u16 ''isSelected'') = Some (JBool False) \<and>
        st (u16 ''audioFileName'') = Some (JStr (ident @ u16 ''_story.wav'')) \<and>
        st (u16 ''coverAudioFileName'') = Some (JStr (ident @ u16 ''_cover.wav'')))"
    by (intro conjI) (rule p, rule m, rule i, assumption)
  then show ?thesis by (intro exI)
qed

section \<open>The field splitter in the quoted state\<close>

text \<open>
  C2. In the quoted state of the field splitter two consecutive quote units add one literal
  quote to the current field and leave the splitter quoted; a quote followed by another
  unit, or by the end of the row, leaves the quoted state without adding anything. The row
  \<^verbatim>\<open>"He said ""hi""."\<close> is split into the single field \<^verbatim>\<open>He said "hi".\<close>
\<close>

theorem fieldLoop_quoted_state:
  \<open>fieldLoop (0x22 # 0x22 # rest) fields cur True = fieldLoop rest fields (cur @ [0x22]) True \<and>
   (c \<noteq> 0x22 \<longrightarrow>
      fieldLoop (0x22 # c # rest) fields cur True = fieldLoop (c # rest) fields cur False) \<and>
   fieldLoop [0x22] fields cur True = fieldLoop [] fields cur False \<and>
   parseCsvRow (u16 ''"He said ""hi""."'') = [u16 ''He said "hi".'']\<close>
  by (simp add: parseCsvRow_def u16_def)

theorem fieldLoop_quoted_state_witness:
  \<open>(0x2C :: 16 word) \<noteq> 0x22 \<and>
   fieldLoop (0x22 # 0x2C # u16 ''b'') [] (u16 ''a'') True = fieldLoop (0x2C # u16 ''b'') [] (u16 ''a'') False \<and>
   fieldLoop (0x22 # 0x2C # u16 ''b'') [] (u16 ''a'') True = [u16 ''a'', u16 ''b'']\<close>
proof -
  have ne: "(0x2C :: 16 word) \<noteq> 0x22" by simp
  from fieldLoop_quoted_state [of "u16 ''b''" "[]" "u16 ''a''" "0x2C"] ne
  have e: "fieldLoop (0x22 # 0x2C # u16 ''b'') [] (u16 ''a'') True =
           fieldLoop (0x2C # u16 ''b'') [] (u16 ''a'') False"
    by blast
  moreover have "fieldLoop (0x2C # u16 ''b'') [] (u16 ''a'') False = [u16 ''a'', u16 ''b'']"
    by (simp add: u16_def)
  ultimately show ?thesis using ne by simp
qed

section \<open>Fewer than two rows\<close>

lemma set_replaceCrLf: "set (replaceCrLf s) \<subseteq> set s"
  by (induction s rule: replaceCrLf.induct) auto

lemma set_trim: "set (trim s) \<subseteq> set s"
proof
  fix c assume "c \<in> set (trim s)"
  then have "c \<in> set (dropWhile isWhiteSpace (rev (dropWhile isWhiteSpace s)))"
    by (simp add: trim_def trimEnd_def trimStart_def)
  then have "c \<in> set (rev (dropWhile isWhiteSpace s))" by (rule set_dropWhileD)
  then have "c \<in> set (dropWhile isWhiteSpace s)" by simp
  then show "c \<in> set s" by (rule set_dropWhileD)
qed

lemma splitLoop_no_newline:
  "0x0A \<notin> set s \<Longrightarrow> length (splitLoop s rows cur inq) \<le> Suc (length rows)"
  by (induction s arbitrary: cur inq) (simp_all add: Let_def)

text \<open>
  C4. When the row splitter finds fewer than two rows, the decoder returns the empty
  sequence and raises nothing. That is the case for the empty blob and for every blob
  without a line feed (a header and no data row).
\<close>

theorem parseCSV_few_rows:
  "(length (splitRows data) < 2 \<longrightarrow> parseCSV data = Inr []) \<and>
   (0x0A \<notin> set data \<longrightarrow> length (splitRows data) < 2) \<and>
   splitRows [] = []"
proof (intro conjI impI)
  assume "length (splitRows data) < 2"
  then show "parseCSV data = Inr []" by (simp add: parseCSV_def)
next
  assume "0x0A \<notin> set data"
  with set_replaceCrLf [of data] set_trim [of "replaceCrLf data"]
  have "0x0A \<notin> set (normalizedData data)" by (auto simp: normalizedData_def)
  from splitLoop_no_newline [OF this, of "[]" "[]" False]
  show "length (splitRows data) < 2" by (simp add: splitRows_def)
next
  show "splitRows [] = []"
    by (simp add: splitRows_def normalizedData_def trim_def trimStart_def trimEnd_def)
qed

theorem parseCSV_few_rows_witness:
  "0x0A \<notin> set (u16 ''title,rewritten_story'') \<and>
   length (splitRows (u16 ''title,rewritten_story'')) < 2 \<and>
   splitRows (u16 ''title,rewritten_story'') = [u16 ''title,rewritten_story''] \<and>
   parseCSV (u16 ''title,rewritten_story'') = Inr []"
proof -
  have n: "0x0A \<notin> set (u16 ''title,rewritten_story'')" by (simp add: u16_def)
  note t = parseCSV_few_rows [of "u16 ''title,rewritten_story''"]
  from t n have l: "length (splitRows (u16 ''title,rewritten_story'')) < 2" by blast
  with t have "parseCSV (u16 ''title,rewritten_story'') = Inr []" by blast
  moreover have "splitRows (u16 ''title,rewritten_story'') = [u16 ''title,rewritten_story'']"
    by (simp add: splitRows_def normalizedData_def trim_def trimStart_def trimEnd_def
        isWhiteSpace_def u16_def)
  ultimately show ?thesis using n l by simp
qed

section \<open>The filter on the body text\<close>

text \<open>
  C3. For every blob the decoder builds one record for each row after the header and
  returns, in the same order, exactly the built records whose property
  \<^verbatim>\<open>rewritten_story\<close> is present and, once trimmed, longer than one unit. A record whose
  body trims to one unit or to the empty string is left out, and nothing is raised.
\<close>

theorem parseCSV_keeps_long_bodies:
  "\<exists>built.
     (case splitRows data of
        row0 # row1 # rest \<Rightarrow> mapRows (map trim (parseCsvRow row0)) (row1 # rest) 0 = Inr built
      | _ \<Rightarrow> built = []) \<and>
     parseCSV data =
       Inr (filter (\<lambda>st. \<exists>s. st (u16 ''rewritten_story'') = Some (JStr s) \<and> 1 < length (trim s))
              built)"
proof (cases "splitRows data")
  case Nil
  then show ?thesis by (simp add: parseCSV_def)
next
  case (Cons row0 rs)
  show ?thesis
  proof (cases rs)
    case Nil
    with Cons show ?thesis by (simp add: parseCSV_def)
  next
    case (Cons row1 rest)
    with \<open>splitRows data = row0 # rs\<close> have rows: "splitRows data = row0 # row1 # rest" by simp
    from parseCSV_rows [OF rows] show ?thesis unfolding rows by auto
  qed
qed

lemma sample_bodies_rows:
  \<open>splitRows (u16 ''rewritten_story\<newline>long text\<newline>x\<newline>"y "'') =
     [u16 ''rewritten_story'', u16 ''long text'', u16 ''x'', u16 ''"y "'']\<close>
  by (simp add: decoder_eval)

lemma sample_bodies_kept:
  \<open>map_sum id (map (\<lambda>st. st (u16 ''rewritten_story'')))
     (parseCSV (u16 ''rewritten_story\<newline>long text\<newline>x\<newline>"y "'')) =
   Inr [Some (JStr (u16 ''long text''))]\<close>
  by (simp add: decoder_eval)

theorem parseCSV_keeps_long_bodies_witness:
  \<open>\<exists>built.
     mapRows [u16 ''rewritten_story''] [u16 ''long text'', u16 ''x'', u16 ''"y "''] 0 = Inr built \<and>
     length built = 3 \<and>
     parseCSV (u16 ''rewritten_story\<newline>long text\<newline>x\<newline>"y "'') =
       Inr (filter (\<lambda>st. \<exists>s. st (u16 ''rewritten_story'') = Some (JStr s) \<and> 1 < length (trim s))
              built) \<and>
     map (\<lambda>st. st (u16 ''rewritten_story''))
       (filter (\<lambda>st. \<exists>s. st (u16 ''rewritten_story'') = Some (JStr s) \<and> 1 < length (trim s))
          built) = [Some (JStr (u16 ''long text''))]\<close>
proof -
  have hdr: "map trim (parseCsvRow (u16 ''rewritten_story'')) = [u16 ''rewritten_story'']"
    by (simp add: decoder_eval)
  from parseCSV_keeps_long_bodies [of \<open>u16 ''rewritten_story\<newline>long text\<newline>x\<newline>"y "''\<close>]
  obtain built where
    b: \<open>mapRows [u16 ''rewritten_story''] [u16 ''long text'', u16 ''x'', u16 ''"y "''] 0 = Inr built\<close>
    and p: \<open>parseCSV (u16 ''rewritten_story\<newline>long text\<newline>x\<newline>"y "'') =
       Inr (filter (\<lambda>st. \<exists>s. st (u16 ''rewritten_story'') = Some (JStr s) \<and> 1 < length (trim s))
              built)\<close>
    unfolding sample_bodies_rows list.case hdr by (elim exE conjE)
  from mapRows_nth [OF b] have l: "length built = 3" by simp
  have k: \<open>map (\<lambda>st. st (u16 ''rewritten_story''))
       (filter (\<lambda>st. \<exists>s. st (u16 ''rewritten_story'') = Some (JStr s) \<and> 1 < length (trim s))
          built) = [Some (JStr (u16 ''long text''))]\<close>
    using sample_bodies_kept unfolding p by simp
  from b l p k show ?thesis by (intro exI [of _ built] conjI)
qed

section \<open>No exception, defaults instead\<close>

lemma numeric_key_not_flag:
  "key = u16 ''score'' \<or> key = u16 ''num_comments'' \<Longrightarrow>
   key \<noteq> u16 ''is_self'' \<and> key \<noteq> u16 ''over_18''"
  by (auto simp: u16_def)

lemma fieldValue_numeric:
  assumes "key = u16 ''score'' \<or> key = u16 ''num_comments''"
  shows "fieldValue key raw =
    Inr (JNum (case parseInt10 (case raw of None \<Rightarrow> [] | Some s \<Rightarrow> s) of
                 None \<Rightarrow> Finite 0 | Some x \<Rightarrow> x))"
  using assms numeric_key_not_flag [OF assms] by (simp add: fieldValue_def)

lemma fieldValue_flag:
  assumes "key = u16 ''is_self'' \<or> key = u16 ''over_18''"
  shows "fieldValue key raw =
    Inr (JBool (lowerCaseIsTrue (case raw of None \<Rightarrow> [] | Some s \<Rightarrow> s)))"
proof -
  from assms numeric_key_not_flag [of key]
  have "\<not> (key = u16 ''score'' \<or> key = u16 ''num_comments'')" by blast
  with assms show ?thesis by (simp add: fieldValue_def)
qed

lemma fieldValue_text:
  assumes "\<not> (key = u16 ''score'' \<or> key = u16 ''num_comments'')"
    and "\<not> (key = u16 ''is_self'' \<or> key = u16 ''over_18'')"
  shows "fieldValue key raw = Inr (JStr (case raw of None \<Rightarrow> [] | Some s \<Rightarrow> s))"
  using assms by (simp add: fieldValue_def)

lemma fieldValue_default:
  "fieldValue key (Some []) =
     Inr (if numericKey key then JNum (Finite 0) else if flagKey key then JBool False else JStr [])"
proof -
  have nan: "parseInt10 [] = None" by (simp add: parseInt10_def trimStart_def)
  have no: "\<not> lowerCaseIsTrue []" by (simp add: lowerCaseIsTrue_def)
  consider (numeric) "numericKey key"
    | (flagged) "\<not> numericKey key" "flagKey key"
    | (plain) "\<not> numericKey key" "\<not> flagKey key"
    by blast
  then show ?thesis
  proof cases
    case numeric
    then show ?thesis unfolding fieldValue_numeric [OF numeric] by (simp add: nan)
  next
    case flagged
    then show ?thesis unfolding fieldValue_flag [OF flagged(2)] by (simp add: no)
  next
    case plain
    then show ?thesis unfolding fieldValue_text [OF plain] by simp
  qed
qed

lemma missing_value:
  assumes "j < n" and "length vs \<le> j \<or> vs ! j = []"
  shows "arrayGet (padValues vs n) j = Some []"
proof (cases "j < length vs")
  case True
  with assms(2) show ?thesis by (simp add: padded_value)
next
  case False
  with assms(1) have "j - length vs < n - length vs" by arith
  then have "replicate (n - length vs) ([]::jstring) ! (j - length vs) = []"
    by (rule nth_replicate)
  with False assms(1) show ?thesis
    by (simp add: arrayGet_def padValues_replicate nth_append)
qed

text \<open>
  C7. For every input string the decoder returns a record sequence and raises nothing.
  In the record built from any data row of any blob, a column whose value is missing
  (the row is too short to reach it, or the field is empty) holds the default of its
  kind: 0 under a numeric header, false under a flag header, the empty string under any
  other header; and a numeric column whose value \<^verbatim>\<open>parseInt\<close> cannot read holds 0. This is
  said of a column whose trimmed name is not repeated by a later column and is neither
  \<^verbatim>\<open>__proto__\<close> nor a property the decoder sets itself. The decoder returns the built
  records that pass the filter on the body text, such a record among them when it passes.
\<close>

theorem parseCSV_never_throws:
  "(\<exists>stories. parseCSV data = Inr stories) \<and>
   (splitRows data = row0 # rs \<and> i < length rs \<and> j < length (parseCsvRow row0) \<and>
    key = trim (parseCsvRow row0 ! j) \<and>
    key \<notin> set (drop (Suc j) (map trim (parseCsvRow row0))) \<and>
    key \<noteq> u16 ''__proto__'' \<and> \<not> stateKey key \<longrightarrow>
      (\<exists>built. mapRows (map trim (parseCsvRow row0)) rs 0 = Inr built \<and>
         length built = length rs \<and> parseCSV data = Inr (filter bodyKept built) \<and>
         (length (parseCsvRow (trim (rs ! i))) \<le> j \<or> parseCsvRow (trim (rs ! i)) ! j = [] \<longrightarrow>
            (built ! i) key =
              Some (if numericKey key then JNum (Finite 0)
                    else if flagKey key then JBool False else JStr [])) \<and>
         (j < length (parseCsvRow (trim (rs ! i))) \<and> numericKey key \<and>
          parseInt10 (parseCsvRow (trim (rs ! i)) ! j) = None \<longrightarrow>
            (built ! i) key = Some (JNum (Finite 0))) \<and>
         (bodyKept (built ! i) \<longrightarrow>
            (\<exists>stories. parseCSV data = Inr stories \<and> built ! i \<in> set stories))))"
proof (intro conjI impI)
  show "\<exists>stories. parseCSV data = Inr stories" by (rule parseCSV_total)
next
  assume a: "splitRows data = row0 # rs \<and> i < length rs \<and> j < length (parseCsvRow row0) \<and>
    key = trim (parseCsvRow row0 ! j) \<and>
    key \<notin> set (drop (Suc j) (map trim (parseCsvRow row0))) \<and>
    key \<noteq> u16 ''__proto__'' \<and> \<not> stateKey key"
  then have rows: "splitRows data = row0 # rs" and i: "i < length rs"
    and j: "j < length (parseCsvRow row0)" and key: "key = trim (parseCsvRow row0 ! j)"
    and fresh: "key \<notin> set (drop (Suc j) (map trim (parseCsvRow row0)))"
    and proto: "key \<noteq> u16 ''__proto__''" and own: "\<not> stateKey key"
    by - (elim conjE, assumption)+
  define vs where "vs = parseCsvRow (trim (rs ! i))"
  from built_record_field [OF rows i j key fresh proto own] obtain built v where
    b: "mapRows (map trim (parseCsvRow row0)) rs 0 = Inr built" "length built = length rs"
      "parseCSV data = Inr (filter bodyKept built)"
    and v: "fieldValue key (arrayGet (padValues vs (length (parseCsvRow row0))) j) = Inr v"
    and s: "(built ! i) key = Some v"
    and r: "bodyKept (built ! i) \<longrightarrow>
              (\<exists>stories. parseCSV data = Inr stories \<and> built ! i \<in> set stories)"
    unfolding vs_def by blast
  have d: "(built ! i) key =
        Some (if numericKey key then JNum (Finite 0)
              else if flagKey key then JBool False else JStr [])"
    if "length vs \<le> j \<or> vs ! j = []"
  proof -
    from missing_value [OF j that] v s show ?thesis by (simp add: fieldValue_default)
  qed
  have u: "(built ! i) key = Some (JNum (Finite 0))"
    if "j < length vs \<and> numericKey key \<and> parseInt10 (vs ! j) = None"
  proof -
    from that have n: "numericKey key" by simp
    from that v s show ?thesis unfolding fieldValue_numeric [OF n] by (simp add: padded_value)
  qed
  from b d u r show "\<exists>built. mapRows (map trim (parseCsvRow row0)) rs 0 = Inr built \<and>
         length built = length rs \<and> parseCSV data = Inr (filter bodyKept built) \<and>
         (length (parseCsvRow (trim (rs ! i))) \<le> j \<or> parseCsvRow (trim (rs ! i)) ! j = [] \<longrightarrow>
            (built ! i) key =
              Some (if numericKey key then JNum (Finite 0)
                    else if flagKey key then JBool False else JStr [])) \<and>
         (j < length (parseCsvRow (trim (rs ! i))) \<and> numericKey key \<and>
          parseInt10 (parseCsvRow (trim (rs ! i)) ! j) = None \<longrightarrow>
            (built ! i) key = Some (JNum (Finite 0))) \<and>
         (bodyKept (built ! i) \<longrightarrow>
            (\<exists>stories. parseCSV data = Inr stories \<and> built ! i \<in> set stories))"
    unfolding vs_def by (intro exI [of _ built] conjI) simp_all
qed

lemma sample_defaults_rows:
  "splitRows (u16 ''score,is_self,title,rewritten_story,label\<newline>n/a,,,a tale'') =
     [u16 ''score,is_self,title,rewritten_story,label'', u16 ''n/a,,,a tale'']"
  by (simp add: decoder_eval)

lemma sample_defaults_header:
  "map trim (parseCsvRow (u16 ''score,is_self,title,rewritten_story,label'')) =
     [u16 ''score'', u16 ''is_self'', u16 ''title'', u16 ''rewritten_story'', u16 ''label'']"
  by (simp add: decoder_eval)

lemma sample_defaults_values:
  "parseCsvRow (trim (u16 ''n/a,,,a tale'')) = [u16 ''n/a'', [], [], u16 ''a tale'']"
  by (simp add: decoder_eval)

lemma sample_defaults_decoded:
  "map_sum id (map (\<lambda>st. [st (u16 ''score''), st (u16 ''is_self''), st (u16 ''title''),
                              st (u16 ''rewritten_story''), st (u16 ''label'')]))
     (parseCSV (u16 ''score,is_self,title,rewritten_story,label\<newline>n/a,,,a tale'')) =
   Inr [[Some (JNum (Finite 0)), Some (JBool False), Some (JStr []),
         Some (JStr (u16 ''a tale'')), Some (JStr [])]]"
  by (simp add: decoder_eval parseInt10_def isDigit_def lowerCaseIsTrue_def)

theorem parseCSV_never_throws_witness:
  "splitRows (u16 ''score,is_self,title,rewritten_story,label\<newline>n/a,,,a tale'') =
     [u16 ''score,is_self,title,rewritten_story,label'', u16 ''n/a,,,a tale''] \<and>
   parseCsvRow (trim (u16 ''n/a,,,a tale'')) = [u16 ''n/a'', [], [], u16 ''a tale''] \<and>
   parseInt10 (u16 ''n/a'') = None \<and>
   (\<exists>stories. parseCSV (u16 ''score,is_self,title,rewritten_story,label\<newline>n/a,,,a tale'') =
      Inr stories) \<and>
   (\<exists>built.
      mapRows (map trim (parseCsvRow (u16 ''score,is_self,title,rewritten_story,label'')))
        [u16 ''n/a,,,a tale''] 0 = Inr built \<and>
      parseCSV (u16 ''score,is_self,title,rewritten_story,label\<newline>n/a,,,a tale'') =
        Inr (filter bodyKept built) \<and>
      (built ! 0) (u16 ''label'') = Some (JStr []) \<and>
      (built ! 0) (u16 ''is_self'') = Some (JBool False) \<and>
      (built ! 0) (u16 ''score'') = Some (JNum (Finite 0))) \<and>
   map_sum id (map (\<lambda>st. [st (u16 ''score''), st (u16 ''is_self''), st (u16 ''title''),
                              st (u16 ''rewritten_story''), st (u16 ''label'')]))
     (parseCSV (u16 ''score,is_self,title,rewritten_story,label\<newline>n/a,,,a tale'')) =
   Inr [[Some (JNum (Finite 0)), Some (JBool False), Some (JStr []),
         Some (JStr (u16 ''a tale'')), Some (JStr [])]]"
proof -
  define blob where "blob = u16 ''score,is_self,title,rewritten_story,label\<newline>n/a,,,a tale''"
  define hdr where "hdr = u16 ''score,is_self,title,rewritten_story,label''"
  define row where "row = u16 ''n/a,,,a tale''"
  have rows: "splitRows blob = hdr # [row]"
    unfolding blob_def hdr_def row_def by (rule sample_defaults_rows)
  have hs: "map trim (parseCsvRow hdr) =
     [u16 ''score'', u16 ''is_self'', u16 ''title'', u16 ''rewritten_story'', u16 ''label'']"
    unfolding hdr_def by (rule sample_defaults_header)
  have "length (parseCsvRow hdr) = length (map trim (parseCsvRow hdr))" by simp
  also have "\<dots> = 5" unfolding hs by simp
  finally have len: "length (parseCsvRow hdr) = 5" .
  have vs: "parseCsvRow (trim ([row] ! 0)) = [u16 ''n/a'', [], [], u16 ''a tale'']"
    unfolding row_def using sample_defaults_values by simp
  have nan: "parseInt10 (u16 ''n/a'') = None"
    by (simp add: parseInt10_def trimStart_def isWhiteSpace_def isDigit_def u16_def)
  have hyp: "splitRows blob = hdr # [row] \<and> 0 < length [row] \<and> j < length (parseCsvRow hdr) \<and>
      key = trim (parseCsvRow hdr ! j) \<and>
      key \<notin> set (drop (Suc j) (map trim (parseCsvRow hdr))) \<and>
      key \<noteq> u16 ''__proto__'' \<and> \<not> stateKey key"
    if "j < 5" and "key = map trim (parseCsvRow hdr) ! j"
      and "key \<notin> set (drop (Suc j) (map trim (parseCsvRow hdr)))"
      and "key \<noteq> u16 ''__proto__''" and "\<not> stateKey key" for j key
    using that rows len by simp
  have label: "(4::nat) < 5" "u16 ''label'' = map trim (parseCsvRow hdr) ! 4"
      "u16 ''label'' \<notin> set (drop (Suc 4) (map trim (parseCsvRow hdr)))"
      "u16 ''label'' \<noteq> u16 ''__proto__''" "\<not> stateKey (u16 ''label'')"
    unfolding hs by (simp_all add: u16_def)
  have flag: "(1::nat) < 5" "u16 ''is_self'' = map trim (parseCsvRow hdr) ! 1"
      "u16 ''is_self'' \<notin> set (drop (Suc 1) (map trim (parseCsvRow hdr)))"
      "u16 ''is_self'' \<noteq> u16 ''__proto__''" "\<not> stateKey (u16 ''is_self'')"
    unfolding hs by (simp_all add: u16_def)
  have score: "(0::nat) < 5" "u16 ''score'' = map trim (parseCsvRow hdr) ! 0"
      "u16 ''score'' \<notin> set (drop (Suc 0) (map trim (parseCsvRow hdr)))"
      "u16 ''score'' \<noteq> u16 ''__proto__''" "\<not> stateKey (u16 ''score'')"
    unfolding hs by (simp_all add: u16_def)
  note t = parseCSV_never_throws [where data = blob and ?row0.0 = hdr and rs = "[row]" and i = 0]
  from t [where j = 4 and key = "u16 ''label''", THEN conjunct1]
  have total: "\<exists>stories. parseCSV blob = Inr stories" .
  from t [where j = 4 and key = "u16 ''label''", THEN conjunct2, THEN mp, OF hyp [OF label]]
  obtain built where
    b: "mapRows (map trim (parseCsvRow hdr)) [row] 0 = Inr built"
    and p: "parseCSV blob = Inr (filter bodyKept built)"
    and short: "length (parseCsvRow (trim ([row] ! 0))) \<le> 4 \<or> parseCsvRow (trim ([row] ! 0)) ! 4 = [] \<longrightarrow>
            (built ! 0) (u16 ''label'') =
              Some (if numericKey (u16 ''label'') then JNum (Finite 0)
                    else if flagKey (u16 ''label'') then JBool False else JStr [])"
    by (elim exE conjE)
  from short have l: "(built ! 0) (u16 ''label'') = Some (JStr [])"
    unfolding vs by (simp add: u16_def)
  from t [where j = 1 and key = "u16 ''is_self''", THEN conjunct2, THEN mp, OF hyp [OF flag]]
  obtain built1 where
    b1: "mapRows (map trim (parseCsvRow hdr)) [row] 0 = Inr built1"
    and empty: "length (parseCsvRow (trim ([row] ! 0))) \<le> 1 \<or> parseCsvRow (trim ([row] ! 0)) ! 1 = [] \<longrightarrow>
            (built1 ! 0) (u16 ''is_self'') =
              Some (if numericKey (u16 ''is_self'') then JNum (Finite 0)
                    else if flagKey (u16 ''is_self'') then JBool False else JStr [])"
    by (elim exE conjE)
  from b b1 have "built1 = built" by simp
  with empty have f: "(built ! 0) (u16 ''is_self'') = Some (JBool False)"
    unfolding vs by (simp add: u16_def)
  from t [where j = 0 and key = "u16 ''score''", THEN conjunct2, THEN mp, OF hyp [OF score]]
  obtain built2 where
    b2: "mapRows (map trim (parseCsvRow hdr)) [row] 0 = Inr built2"
    and unread: "0 < length (parseCsvRow (trim ([row] ! 0))) \<and> numericKey (u16 ''score'') \<and>
          parseInt10 (parseCsvRow (trim ([row] ! 0)) ! 0) = None \<longrightarrow>
            (built2 ! 0) (u16 ''score'') = Some (JNum (Finite 0))"
    by (elim exE conjE)
  from b b2 have "built2 = built" by simp
  with unread nan have n: "(built ! 0) (u16 ''score'') = Some (JNum (Finite 0))"
    unfolding vs by simp
  have ex: "\<exists>built. mapRows (map trim (parseCsvRow hdr)) [row] 0 = Inr built \<and>
      parseCSV blob = Inr (filter bodyKept built) \<and>
      (built ! 0) (u16 ''label'') = Some (JStr []) \<and>
      (built ! 0) (u16 ''is_self'') = Some (JBool False) \<and>
      (built ! 0) (u16 ''score'') = Some (JNum (Finite 0))"
    by (intro exI [of _ built] conjI) (rule b, rule p, rule l, rule f, rule n)
  from sample_defaults_rows sample_defaults_values nan total ex sample_defaults_decoded
  show ?thesis unfolding blob_def hdr_def row_def by (intro conjI)
qed

section \<open>Which rows the row splitter drops\<close>

lemma splitLoop_logicalRows:
  "splitLoop s rows cur inq = rows @ filter (\<lambda>r. trim r \<noteq> []) (logicalRows s cur inq)"
  by (induction s arbitrary: rows cur inq) (auto simp: Let_def)

text \<open>
  C8, as the code has it. The row splitter returns the logical rows in their original
  order and leaves out every row that is empty or white space only, wherever it stands:
  between two other rows as well as at the end. Every other row is kept unchanged.
\<close>

theorem splitRows_drops_every_blank_row:
  "splitRows data = filter (\<lambda>r. trim r \<noteq> []) (logicalRows (normalizedData data) [] False)"
  by (simp add: splitRows_def splitLoop_logicalRows)

text \<open>
  The blob of three lines whose middle line is one space has three logical rows, and the
  row splitter returns two: the white-space row between two non-empty rows is not kept.
\<close>

theorem splitRows_blank_row_between_counterexample:
  "logicalRows (normalizedData (u16 ''a\<newline> \<newline>b'')) [] False = [u16 ''a'', u16 '' '', u16 ''b''] \<and>
   splitRows (u16 ''a\<newline> \<newline>b'') = [u16 ''a'', u16 ''b'']"
  by (simp add: splitRows_def normalizedData_def trim_def trimStart_def trimEnd_def
      isWhiteSpace_def u16_def)

section \<open>Short rows\<close>

lemma sample_short_row:
  "map_sum id (\<lambda>st. [st (u16 ''a''), st (u16 ''b''), st (u16 ''c'')])
     (buildStory (map trim (parseCsvRow (u16 ''a,b,c''))) (u16 ''x,y'') 0) =
   Inr [Some (JStr (u16 ''x'')), Some (JStr (u16 ''y'')), Some (JStr [])]"
  by (simp add: decoder_eval)

lemma sample_short_row_decoded:
  "map_sum id (map (\<lambda>st. [st (u16 ''rewritten_story''), st (u16 ''b''), st (u16 ''c'')]))
     (parseCSV (u16 ''rewritten_story,b,c\<newline>hello,y'')) =
   Inr [[Some (JStr (u16 ''hello'')), Some (JStr (u16 ''y'')), Some (JStr [])]]"
  by (simp add: decoder_eval)

text \<open>
  C5, as the code has it. The padding loop appends empty strings until the values are as
  many as the headers and never removes a value. The record built from the header
  \<^verbatim>\<open>a,b,c\<close> and the row \<^verbatim>\<open>x,y\<close> has the property \<^verbatim>\<open>c\<close> set to the empty string; decoding
  the header \<^verbatim>\<open>rewritten_story,b,c\<close> with the row \<^verbatim>\<open>hello,y\<close> returns one record whose
  property \<^verbatim>\<open>c\<close> is the empty string.
\<close>

theorem short_row_padded:
  "padValues vs n = vs @ replicate (n - length vs) [] \<and>
   length (padValues vs n) = max (length vs) n \<and>
   (\<exists>st. buildStory (map trim (parseCsvRow (u16 ''a,b,c''))) (u16 ''x,y'') 0 = Inr st \<and>
      st (u16 ''a'') = Some (JStr (u16 ''x'')) \<and> st (u16 ''b'') = Some (JStr (u16 ''y'')) \<and>
      st (u16 ''c'') = Some (JStr [])) \<and>
   (\<exists>st. parseCSV (u16 ''rewritten_story,b,c\<newline>hello,y'') = Inr [st] \<and>
      st (u16 ''rewritten_story'') = Some (JStr (u16 ''hello'')) \<and>
      st (u16 ''b'') = Some (JStr (u16 ''y'')) \<and> st (u16 ''c'') = Some (JStr []))"
proof (intro conjI)
  show "padValues vs n = vs @ replicate (n - length vs) []" by (rule padValues_replicate)
next
  show "length (padValues vs n) = max (length vs) n" by (simp add: padValues_replicate)
next
  obtain st where st: "buildStory (map trim (parseCsvRow (u16 ''a,b,c''))) (u16 ''x,y'') 0 = Inr st"
    using buildStory_total by blast
  from sample_short_row have
    "st (u16 ''a'') = Some (JStr (u16 ''x'')) \<and> st (u16 ''b'') = Some (JStr (u16 ''y'')) \<and>
      st (u16 ''c'') = Some (JStr [])"
    unfolding st by simp
  with st show "\<exists>st. buildStory (map trim (parseCsvRow (u16 ''a,b,c''))) (u16 ''x,y'') 0 = Inr st \<and>
      st (u16 ''a'') = Some (JStr (u16 ''x'')) \<and> st (u16 ''b'') = Some (JStr (u16 ''y'')) \<and>
      st (u16 ''c'') = Some (JStr [])"
    by (intro exI [of _ st] conjI) simp_all
next
  obtain stories where p: "parseCSV (u16 ''rewritten_story,b,c\<newline>hello,y'') = Inr stories"
    using parseCSV_total by blast
  from sample_short_row_decoded have
    "map (\<lambda>st. [st (u16 ''rewritten_story''), st (u16 ''b''), st (u16 ''c'')]) stories =
       [[Some (JStr (u16 ''hello'')), Some (JStr (u16 ''y'')), Some (JStr [])]]"
    unfolding p by simp
  then obtain st where "stories = [st]"
    "st (u16 ''rewritten_story'') = Some (JStr (u16 ''hello''))"
    "st (u16 ''b'') = Some (JStr (u16 ''y''))" "st (u16 ''c'') = Some (JStr [])"
    by (auto simp: map_eq_Cons_conv)
  with p show "\<exists>st. parseCSV (u16 ''rewritten_story,b,c\<newline>hello,y'') = Inr [st] \<and>
      st (u16 ''rewritten_story'') = Some (JStr (u16 ''hello'')) \<and>
      st (u16 ''b'') = Some (JStr (u16 ''y'')) \<and> st (u16 ''c'') = Some (JStr [])"
    by (intro exI [of _ st] conjI) simp_all
qed

text \<open>
  Decoding the header \<^verbatim>\<open>a,b,c\<close> with the row \<^verbatim>\<open>x,y\<close> returns no record at all: the built
  record has no \<^verbatim>\<open>rewritten_story\<close> and the filter drops it.
\<close>

theorem short_row_decode_counterexample:
  "parseCSV (u16 ''a,b,c\<newline>x,y'') = Inr []"
  by (simp add: decoder_eval)

section \<open>Trimming\<close>

lemma trimStart_append_stop:
  "\<not> isWhiteSpace c \<Longrightarrow> trimStart (xs @ c # ys) = trimStart xs @ c # ys"
  by (simp add: trimStart_def dropWhile_append)

lemma trimEnd_append_stop:
  "\<not> isWhiteSpace c \<Longrightarrow> trimEnd (xs @ c # ys) = xs @ c # trimEnd ys"
  by (simp add: trimEnd_def dropWhile_append)

lemma trim_unchanged:
  assumes "s \<noteq> []" and "\<not> isWhiteSpace (hd s)" and "\<not> isWhiteSpace (last s)"
  shows "trim s = s"
proof -
  from assms(1,2) have a: "trimStart s = s"
    by (cases s) (simp_all add: trimStart_def)
  from assms(1,3) have "dropWhile isWhiteSpace (rev s) = rev s"
    by (cases s rule: rev_cases) simp_all
  then have "trimEnd s = s" by (simp add: trimEnd_def)
  with a show ?thesis by (simp add: trim_def)
qed

lemma trim_ends:
  assumes "trim s \<noteq> []"
  shows "\<not> isWhiteSpace (hd (trim s)) \<and> \<not> isWhiteSpace (last (trim s))"
proof -
  define u where "u = dropWhile isWhiteSpace s"
  define w where "w = dropWhile isWhiteSpace (rev u)"
  have t: "trim s = rev w" by (simp add: trim_def trimStart_def trimEnd_def u_def w_def)
  with assms have w: "w \<noteq> []" by simp
  then have "\<not> isWhiteSpace (hd w)" unfolding w_def by (rule hd_dropWhile)
  then have l: "\<not> isWhiteSpace (last (trim s))" using w by (simp add: t last_rev)
  from w have u: "u \<noteq> []" by (auto simp: w_def)
  then have hu: "\<not> isWhiteSpace (hd u)" unfolding u_def by (rule hd_dropWhile)
  have "rev u = takeWhile isWhiteSpace (rev u) @ w" by (simp add: w_def)
  then have "last (rev u) = last w" using w by (metis last_appendR)
  then have "hd (trim s) = hd u" using u w by (simp add: t hd_rev last_rev)
  with hu l show ?thesis by simp
qed

lemma trim_idem: "trim (trim s) = trim s"
proof (cases "trim s = []")
  case True
  have "trim [] = []" by (simp add: trim_def trimStart_def trimEnd_def)
  with True show ?thesis by simp
next
  case False
  from trim_ends [OF False] False show ?thesis by (intro trim_unchanged) simp_all
qed

lemma comma_not_space: "\<not> isWhiteSpace 0x2C"
  by (simp add: isWhiteSpace_def)

section \<open>Fields without quotes\<close>

lemma fieldLoop_plain:
  "0x22 \<notin> set f \<Longrightarrow> 0x2C \<notin> set f \<Longrightarrow>
   fieldLoop (f @ rest) fields cur False = fieldLoop rest fields (cur @ f) False"
  by (induction f arbitrary: cur) simp_all

lemma fieldLoop_plain_fields:
  "\<forall>g\<in>set fs. 0x22 \<notin> set g \<and> 0x2C \<notin> set g \<Longrightarrow>
   fieldLoop (concat (map ((#) 0x2C) fs)) fields cur False = fields @ cur # fs"
proof (induction fs arbitrary: fields cur)
  case Nil
  show ?case by simp
next
  case (Cons g fs)
  then have g: "0x22 \<notin> set g" "0x2C \<notin> set g" by simp_all
  have "fieldLoop (concat (map ((#) 0x2C) (g # fs))) fields cur False =
        fieldLoop (g @ concat (map ((#) 0x2C) fs)) (fields @ [cur]) [] False"
    by simp
  also have "\<dots> = fieldLoop (concat (map ((#) 0x2C) fs)) (fields @ [cur]) g False"
    using fieldLoop_plain [OF g, of _ _ "[]"] by simp
  also have "\<dots> = (fields @ [cur]) @ g # fs"
    using Cons by simp
  finally show ?case by simp
qed

lemma parseCsvRow_plain:
  assumes "\<forall>g\<in>set (f # fs). 0x22 \<notin> set g \<and> 0x2C \<notin> set g"
  shows "parseCsvRow (f @ concat (map ((#) 0x2C) fs)) = f # fs"
proof -
  from assms have f: "0x22 \<notin> set f" "0x2C \<notin> set f"
    and fs: "\<forall>g\<in>set fs. 0x22 \<notin> set g \<and> 0x2C \<notin> set g" by simp_all
  have "parseCsvRow (f @ concat (map ((#) 0x2C) fs)) =
        fieldLoop (concat (map ((#) 0x2C) fs)) [] f False"
    unfolding parseCsvRow_def using fieldLoop_plain [OF f, of _ "[]" "[]"] by simp
  also have "\<dots> = f # fs" using fieldLoop_plain_fields [OF fs, of "[]" f] by simp
  finally show ?thesis .
qed

lemma set_trimStart: "set (trimStart s) \<subseteq> set s"
  by (auto simp: trimStart_def dest: set_dropWhileD)

lemma set_trimEnd: "set (trimEnd s) \<subseteq> set s"
  by (auto simp: trimEnd_def dest: set_dropWhileD)

lemma sample_untrimmed:
  "map_sum id (map (\<lambda>st. [st (u16 ''rewritten_story''), st (u16 ''b'')]))
     (parseCSV (u16 ''rewritten_story,b\<newline>  hello,x  \<newline>world,y'')) =
   Inr [[Some (JStr (u16 ''hello'')), Some (JStr (u16 ''x''))],
        [Some (JStr (u16 ''world'')), Some (JStr (u16 ''y''))]]"
  by (simp add: decoder_eval)

lemma plain_row_trimmed:
  assumes "\<forall>g\<in>set (f # fs). 0x22 \<notin> set g \<and> 0x2C \<notin> set g" and ne: "fs \<noteq> []"
  shows "parseCsvRow (trim (f @ concat (map ((#) 0x2C) fs))) =
           trimStart f # butlast fs @ [trimEnd (last fs)]"
proof -
  define ms where "ms = butlast fs"
  define l where "l = last fs"
  from ne have fs: "fs = ms @ [l]" by (simp add: ms_def l_def)
  have "trim (f @ concat (map ((#) 0x2C) fs)) =
        trimEnd ((trimStart f @ concat (map ((#) 0x2C) ms)) @ 0x2C # l)"
    unfolding trim_def fs using trimStart_append_stop [OF comma_not_space, of f]
    by (cases ms) simp_all
  also have "\<dots> = (trimStart f @ concat (map ((#) 0x2C) ms)) @ 0x2C # trimEnd l"
    using comma_not_space by (rule trimEnd_append_stop)
  also have "\<dots> = trimStart f @ concat (map ((#) 0x2C) (ms @ [trimEnd l]))"
    by simp
  finally have t: "trim (f @ concat (map ((#) 0x2C) fs)) =
        trimStart f @ concat (map ((#) 0x2C) (ms @ [trimEnd l]))" .
  have "\<forall>g\<in>set (trimStart f # ms @ [trimEnd l]). 0x22 \<notin> set g \<and> 0x2C \<notin> set g"
    using assms(1) set_trimStart [of f] set_trimEnd [of l] unfolding fs by auto
  from parseCsvRow_plain [OF this] show ?thesis unfolding t ms_def l_def .
qed

lemma plain_field_trimmed:
  assumes "0x22 \<notin> set f \<and> 0x2C \<notin> set f"
  shows "parseCsvRow (trim f) = [trim f]"
proof -
  have "\<forall>g\<in>set (trim f # []). 0x22 \<notin> set g \<and> 0x2C \<notin> set g"
    using assms set_trimStart [of f] set_trimEnd [of "trimStart f"] by (auto simp: trim_def)
  from parseCsvRow_plain [OF this] show ?thesis by simp
qed

lemma text_field_in_record:
  assumes rows: "splitRows data = row0 # rs" and i: "i < length rs"
    and j: "j < length (parseCsvRow row0)" and jv: "j < length (parseCsvRow (trim (rs ! i)))"
    and key: "key = trim (parseCsvRow row0 ! j)"
    and fresh: "key \<notin> set (drop (Suc j) (map trim (parseCsvRow row0)))"
    and proto: "key \<noteq> u16 ''__proto__''" and own: "\<not> stateKey key"
    and textual: "\<not> numericKey key" "\<not> flagKey key"
  shows "\<exists>built. mapRows (map trim (parseCsvRow row0)) rs 0 = Inr built \<and>
           length built = length rs \<and> parseCSV data = Inr (filter bodyKept built) \<and>
           (built ! i) (trim (parseCsvRow row0 ! j)) = Some (JStr (parseCsvRow (trim (rs ! i)) ! j)) \<and>
           (bodyKept (built ! i) \<longrightarrow>
              (\<exists>stories. parseCSV data = Inr stories \<and> built ! i \<in> set stories))"
proof -
  have "fieldValue key
      (arrayGet (padValues (parseCsvRow (trim (rs ! i))) (length (parseCsvRow row0))) j) =
      Inr (JStr (parseCsvRow (trim (rs ! i)) ! j))"
    unfolding fieldValue_text [OF textual] by (simp add: padded_value [OF jv])
  with built_record_field [OF rows i j key fresh proto own] show ?thesis
    unfolding key by auto
qed

text \<open>
  C9, as the code has it. In every decoded record a text column holds exactly the field
  that the field splitter finds at its position in the data row after the row as a whole
  has been trimmed, and holds it under the trimmed name of the column: header names are
  trimmed one by one, field values never. The field splitter keeps every unit of a field:
  a row of fields without quote or comma units splits into exactly these fields. So the
  trimming of the row removes white space only at its two ends: a row that begins and
  ends with a unit other than white space (a quote, say) is unchanged, and in a row of
  fields without quote or comma units the first field loses its leading and the last
  field its trailing white space, the fields between them staying as they are. A row and
  its trimmed form build the same record.
\<close>

theorem row_trimmed_before_split:
  "(splitRows data = row0 # rs \<and> i < length rs \<and> j < length (parseCsvRow row0) \<and>
    j < length (parseCsvRow (trim (rs ! i))) \<and> key = trim (parseCsvRow row0 ! j) \<and>
    key \<notin> set (drop (Suc j) (map trim (parseCsvRow row0))) \<and>
    key \<noteq> u16 ''__proto__'' \<and> \<not> stateKey key \<and> \<not> numericKey key \<and> \<not> flagKey key \<longrightarrow>
      (\<exists>built. mapRows (map trim (parseCsvRow row0)) rs 0 = Inr built \<and>
         length built = length rs \<and> parseCSV data = Inr (filter bodyKept built) \<and>
         (built ! i) (trim (parseCsvRow row0 ! j)) =
           Some (JStr (parseCsvRow (trim (rs ! i)) ! j)) \<and>
         (bodyKept (built ! i) \<longrightarrow>
            (\<exists>stories. parseCSV data = Inr stories \<and> built ! i \<in> set stories)))) \<and>
   ((\<forall>g\<in>set (f # fs). 0x22 \<notin> set g \<and> 0x2C \<notin> set g) \<longrightarrow>
      parseCsvRow (f @ concat (map ((#) 0x2C) fs)) = f # fs \<and>
      (fs \<noteq> [] \<longrightarrow>
         parseCsvRow (trim (f @ concat (map ((#) 0x2C) fs))) =
           trimStart f # butlast fs @ [trimEnd (last fs)]) \<and>
      (fs = [] \<longrightarrow> parseCsvRow (trim f) = [trim f])) \<and>
   (row \<noteq> [] \<and> \<not> isWhiteSpace (hd row) \<and> \<not> isWhiteSpace (last row) \<longrightarrow> trim row = row) \<and>
   buildStory headers (trim rowStr) index = buildStory headers rowStr index"
proof (intro conjI impI)
  assume a: "splitRows data = row0 # rs \<and> i < length rs \<and> j < length (parseCsvRow row0) \<and>
    j < length (parseCsvRow (trim (rs ! i))) \<and> key = trim (parseCsvRow row0 ! j) \<and>
    key \<notin> set (drop (Suc j) (map trim (parseCsvRow row0))) \<and>
    key \<noteq> u16 ''__proto__'' \<and> \<not> stateKey key \<and> \<not> numericKey key \<and> \<not> flagKey key"
  show "\<exists>built. mapRows (map trim (parseCsvRow row0)) rs 0 = Inr built \<and>
         length built = length rs \<and> parseCSV data = Inr (filter bodyKept built) \<and>
         (built ! i) (trim (parseCsvRow row0 ! j)) =
           Some (JStr (parseCsvRow (trim (rs ! i)) ! j)) \<and>
         (bodyKept (built ! i) \<longrightarrow>
            (\<exists>stories. parseCSV data = Inr stories \<and> built ! i \<in> set stories))"
  proof (rule text_field_in_record)
    from a show "splitRows data = row0 # rs" and "i < length rs"
      and "j < length (parseCsvRow row0)" and "j < length (parseCsvRow (trim (rs ! i)))"
      and "key = trim (parseCsvRow row0 ! j)"
      and "key \<notin> set (drop (Suc j) (map trim (parseCsvRow row0)))"
      and "key \<noteq> u16 ''__proto__''" and "\<not> stateKey key"
      and "\<not> numericKey key" and "\<not> flagKey key"
      by - (elim conjE, assumption)+
  qed
next
  assume "\<forall>g\<in>set (f # fs). 0x22 \<notin> set g \<and> 0x2C \<notin> set g"
  then show "parseCsvRow (f @ concat (map ((#) 0x2C) fs)) = f # fs"
    by (rule parseCsvRow_plain)
next
  assume "\<forall>g\<in>set (f # fs). 0x22 \<notin> set g \<and> 0x2C \<notin> set g" and "fs \<noteq> []"
  then show "parseCsvRow (trim (f @ concat (map ((#) 0x2C) fs))) =
           trimStart f # butlast fs @ [trimEnd (last fs)]"
    by (rule plain_row_trimmed)
next
  assume "\<forall>g\<in>set (f # fs). 0x22 \<notin> set g \<and> 0x2C \<notin> set g"
  then have "0x22 \<notin> set f \<and> 0x2C \<notin> set f" by simp
  then show "parseCsvRow (trim f) = [trim f]" by (rule plain_field_trimmed)
next
  assume "row \<noteq> [] \<and> \<not> isWhiteSpace (hd row) \<and> \<not> isWhiteSpace (last row)"
  then show "trim row = row" by (intro trim_unchanged) simp_all
next
  show "buildStory headers (trim rowStr) index = buildStory headers rowStr index"
    by (simp add: buildStory_def trim_idem)
qed

lemma sample_header_blanks_rows:
  "splitRows (u16 ''rewritten_story , b\<newline>  hello, x  \<newline>world,y'') =
     [u16 ''rewritten_story , b'', u16 ''  hello, x  '', u16 ''world,y'']"
  by (simp add: decoder_eval)

lemma sample_header_blanks_decoded:
  "map_sum id (map (\<lambda>st. [st (u16 ''rewritten_story''), st (u16 ''b'')]))
     (parseCSV (u16 ''rewritten_story , b\<newline>  hello, x  \<newline>world,y'')) =
   Inr [[Some (JStr (u16 ''hello'')), Some (JStr (u16 '' x''))],
        [Some (JStr (u16 ''world'')), Some (JStr (u16 ''y''))]]"
  by (simp add: decoder_eval)

theorem row_trimmed_before_split_witness:
  \<open>splitRows (u16 ''rewritten_story , b\<newline>  hello, x  \<newline>world,y'') =
     [u16 ''rewritten_story , b'', u16 ''  hello, x  '', u16 ''world,y''] \<and>
   parseCsvRow (u16 ''rewritten_story , b'') = [u16 ''rewritten_story '', u16 '' b''] \<and>
   (\<exists>built.
      mapRows (map trim (parseCsvRow (u16 ''rewritten_story , b'')))
        [u16 ''  hello, x  '', u16 ''world,y''] 0 = Inr built \<and>
      parseCSV (u16 ''rewritten_story , b\<newline>  hello, x  \<newline>world,y'') = Inr (filter bodyKept built) \<and>
      (built ! 0) (u16 ''b'') = Some (JStr (u16 '' x''))) \<and>
   map_sum id (map (\<lambda>st. [st (u16 ''rewritten_story''), st (u16 ''b'')]))
     (parseCSV (u16 ''rewritten_story , b\<newline>  hello, x  \<newline>world,y'')) =
   Inr [[Some (JStr (u16 ''hello'')), Some (JStr (u16 '' x''))],
        [Some (JStr (u16 ''world'')), Some (JStr (u16 ''y''))]] \<and>
   parseCsvRow (u16 ''  x, y ,z  '') = [u16 ''  x'', u16 '' y '', u16 ''z  ''] \<and>
   parseCsvRow (trim (u16 ''  x, y ,z  '')) = [u16 ''x'', u16 '' y '', u16 ''z''] \<and>
   trim (u16 ''"  hello "," x  "'') = u16 ''"  hello "," x  "'' \<and>
   parseCsvRow (trim (u16 ''"  hello "," x  "'')) = [u16 ''  hello '', u16 '' x  '']\<close>
proof -
  define blob where "blob = u16 ''rewritten_story , b\<newline>  hello, x  \<newline>world,y''"
  define hdr where "hdr = u16 ''rewritten_story , b''"
  define rs where "rs = [u16 ''  hello, x  '', u16 ''world,y'']"
  define quoted where \<open>quoted = u16 ''"  hello "," x  "''\<close>
  have rows: "splitRows blob = hdr # rs"
    unfolding blob_def hdr_def rs_def by (rule sample_header_blanks_rows)
  have hf: "parseCsvRow hdr = [u16 ''rewritten_story '', u16 '' b'']"
    by (simp add: hdr_def parseCsvRow_def u16_def)
  have vs: "parseCsvRow (trim (rs ! 0)) = [u16 ''hello'', u16 '' x'']"
    by (simp add: rs_def decoder_eval)
  have hyp: "splitRows blob = hdr # rs \<and> 0 < length rs \<and> 1 < length (parseCsvRow hdr) \<and>
    1 < length (parseCsvRow (trim (rs ! 0))) \<and> u16 ''b'' = trim (parseCsvRow hdr ! 1) \<and>
    u16 ''b'' \<notin> set (drop (Suc 1) (map trim (parseCsvRow hdr))) \<and>
    u16 ''b'' \<noteq> u16 ''__proto__'' \<and> \<not> stateKey (u16 ''b'') \<and> \<not> numericKey (u16 ''b'') \<and>
    \<not> flagKey (u16 ''b'')"
    unfolding vs hf rows
    by (simp add: rs_def trim_def trimStart_def trimEnd_def isWhiteSpace_def u16_def)
  have plain: "\<forall>g\<in>set (u16 ''  x'' # [u16 '' y '', u16 ''z  '']). 0x22 \<notin> set g \<and> 0x2C \<notin> set g"
    by (simp add: u16_def)
  have ends: "quoted \<noteq> [] \<and> \<not> isWhiteSpace (hd quoted) \<and> \<not> isWhiteSpace (last quoted)"
    by (simp add: quoted_def isWhiteSpace_def u16_def)
  note t = row_trimmed_before_split [where data = blob and ?row0.0 = hdr and rs = rs and i = 0
      and j = 1 and key = "u16 ''b''" and f = "u16 ''  x''" and fs = "[u16 '' y '', u16 ''z  '']"
      and row = quoted]
  from t [THEN conjunct1, THEN mp, OF hyp] obtain built where
    b: "mapRows (map trim (parseCsvRow hdr)) rs 0 = Inr built"
    and p: "parseCSV blob = Inr (filter bodyKept built)"
    and v: "(built ! 0) (trim (parseCsvRow hdr ! 1)) = Some (JStr (parseCsvRow (trim (rs ! 0)) ! 1))"
    by (elim exE conjE)
  have k: "trim (parseCsvRow hdr ! 1) = u16 ''b''"
    unfolding hf by (simp add: trim_def trimStart_def trimEnd_def isWhiteSpace_def u16_def)
  from v have v': "(built ! 0) (u16 ''b'') = Some (JStr (u16 '' x''))"
    unfolding k vs by simp
  have ex: "\<exists>built. mapRows (map trim (parseCsvRow hdr)) rs 0 = Inr built \<and>
      parseCSV blob = Inr (filter bodyKept built) \<and>
      (built ! 0) (u16 ''b'') = Some (JStr (u16 '' x''))"
    by (intro exI [of _ built] conjI) (rule b, rule p, rule v')
  have j: "u16 ''  x'' @ concat (map ((#) 0x2C) [u16 '' y '', u16 ''z  '']) = u16 ''  x, y ,z  ''"
    by (simp add: u16_def)
  have e: "trimStart (u16 ''  x'') # butlast [u16 '' y '', u16 ''z  ''] @
             [trimEnd (last [u16 '' y '', u16 ''z  ''])] = [u16 ''x'', u16 '' y '', u16 ''z'']"
    by (simp add: trimStart_def trimEnd_def isWhiteSpace_def u16_def)
  from t [THEN conjunct2, THEN conjunct1, THEN mp, OF plain]
  have pl: "parseCsvRow (u16 ''  x, y ,z  '') = [u16 ''  x'', u16 '' y '', u16 ''z  '']"
    "parseCsvRow (trim (u16 ''  x, y ,z  '')) = [u16 ''x'', u16 '' y '', u16 ''z'']"
    unfolding j e by simp_all
  from t [THEN conjunct2, THEN conjunct2, THEN conjunct1, THEN mp, OF ends]
  have q: "trim quoted = quoted" .
  have "parseCsvRow quoted = [u16 ''  hello '', u16 '' x  '']"
    by (simp add: quoted_def parseCsvRow_def u16_def)
  with q have q2: "parseCsvRow (trim quoted) = [u16 ''  hello '', u16 '' x  '']" by simp
  from sample_header_blanks_rows hf [unfolded hdr_def]
    ex [unfolded blob_def hdr_def rs_def] sample_header_blanks_decoded pl
    q [unfolded quoted_def] q2 [unfolded quoted_def]
  show ?thesis by (intro conjI)
qed

text \<open>
  In the second row of this blob the first field is written with two leading and the last
  field with two trailing spaces. The field splitter alone would keep them; the decoded
  record holds \<^verbatim>\<open>hello\<close> and \<^verbatim>\<open>x\<close>.
\<close>

theorem data_row_trimmed_counterexample:
  "parseCsvRow (u16 ''  hello,x  '') = [u16 ''  hello'', u16 ''x  ''] \<and>
   map_sum id (map (\<lambda>st. [st (u16 ''rewritten_story''), st (u16 ''b'')]))
     (parseCSV (u16 ''rewritten_story,b\<newline>  hello,x  \<newline>world,y'')) =
   Inr [[Some (JStr (u16 ''hello'')), Some (JStr (u16 ''x''))],
        [Some (JStr (u16 ''world'')), Some (JStr (u16 ''y''))]]"
  unfolding sample_untrimmed by (simp add: parseCsvRow_def u16_def)

section \<open>Quoted fields that span lines\<close>

lemma splitLoop_quoted_body:
  "splitLoop (concat (map (\<lambda>c. if c = 0x22 then [0x22, 0x22] else [c]) f) @ rest) rows cur True =
   splitLoop rest rows (cur @ concat (map (\<lambda>c. if c = 0x22 then [0x22, 0x22] else [c]) f)) True"
  by (induction f arbitrary: cur) (simp_all add: Let_def)

lemma fieldLoop_quoted_body:
  "fieldLoop (concat (map (\<lambda>c. if c = 0x22 then [0x22, 0x22] else [c]) f) @ rest) fields cur True =
   fieldLoop rest fields (cur @ f) True"
  by (induction f arbitrary: cur) simp_all

lemma splitLoop_quoted_span:
  "splitLoop (0x22 # concat (map (\<lambda>c. if c = 0x22 then [0x22, 0x22] else [c]) f) @ 0x22 # rest)
     rows cur False =
   splitLoop rest rows
     (cur @ 0x22 # concat (map (\<lambda>c. if c = 0x22 then [0x22, 0x22] else [c]) f) @ [0x22]) False"
  using splitLoop_quoted_body [of f "0x22 # rest" rows "cur @ [0x22]"]
  by (simp add: Let_def)

lemma replaceCrLf_Cons:
  "c \<noteq> 0x0D \<or> s = [] \<or> hd s \<noteq> 0x0A \<Longrightarrow> replaceCrLf (c # s) = c # replaceCrLf s"
  by (cases s) auto

lemma replaceCrLf_split:
  "c \<noteq> 0x0D \<Longrightarrow> c \<noteq> 0x0A \<Longrightarrow>
   replaceCrLf (xs @ c # ys) = replaceCrLf xs @ c # replaceCrLf ys"
proof (induction xs rule: replaceCrLf.induct)
  case (1 a b s)
  then show ?case by simp
qed (simp_all add: replaceCrLf_Cons)

lemma replaceCrLf_escapeQuotes:
  "replaceCrLf (escapeQuotes f) = escapeQuotes (replaceCrLf f)"
proof (induction f rule: replaceCrLf.induct)
  case (1 a b s)
  show ?case
  proof (cases "a = 0x0D \<and> b = 0x0A")
    case True
    with 1 show ?thesis by simp
  next
    case False
    have "replaceCrLf (a # escapeQuotes (b # s)) = a # replaceCrLf (escapeQuotes (b # s))"
      using False by (intro replaceCrLf_Cons) auto
    with False 1 show ?thesis by (simp add: replaceCrLf_Cons)
  qed
qed simp_all

lemma replaceCrLf_quoted:
  "replaceCrLf (pre @ 0x22 # escapeQuotes f @ 0x22 # post) =
   replaceCrLf pre @ 0x22 # escapeQuotes (replaceCrLf f) @ 0x22 # replaceCrLf post"
proof -
  have "replaceCrLf (pre @ 0x22 # escapeQuotes f @ 0x22 # post) =
        replaceCrLf pre @ 0x22 # replaceCrLf (escapeQuotes f @ 0x22 # post)"
    by (rule replaceCrLf_split) simp_all
  also have "replaceCrLf (escapeQuotes f @ 0x22 # post) =
        replaceCrLf (escapeQuotes f) @ 0x22 # replaceCrLf post"
    by (rule replaceCrLf_split) simp_all
  finally show ?thesis by (simp add: replaceCrLf_escapeQuotes)
qed

lemma count_replaceCrLf: "c \<noteq> 0x0D \<Longrightarrow> count_list (replaceCrLf s) c = count_list s c"
  by (induction s rule: replaceCrLf.induct) auto

lemma count_trimStart:
  "\<not> isWhiteSpace c \<Longrightarrow> count_list (trimStart s) c = count_list s c"
  unfolding trimStart_def by (induction s) auto

text \<open>After any text the flag of the row splitter is the parity of the quotes it has seen.\<close>

lemma splitLoop_prefix:
  "\<exists>rows' cur'. \<forall>rest.
     splitLoop (pre @ rest) rows cur inq =
     splitLoop rest rows' cur' (if even (count_list pre 0x22) then inq else \<not> inq)"
proof (induction pre arbitrary: rows cur inq)
  case Nil
  show ?case by auto
next
  case (Cons c pre)
  define flag where "flag = (if c = 0x22 then \<not> inq else inq)"
  define break where "break \<longleftrightarrow> c = 0x0A \<and> \<not> flag"
  define rows1 where
    "rows1 = (if break then (if trim cur \<noteq> [] then rows @ [cur] else rows) else rows)"
  define cur1 where "cur1 = (if break then [] else cur @ [c])"
  have step: "splitLoop ((c # pre) @ rest) rows cur inq = splitLoop (pre @ rest) rows1 cur1 flag"
    for rest
    by (simp add: Let_def flag_def break_def rows1_def cur1_def)
  have parity: "(if even (count_list (c # pre) 0x22) then inq else \<not> inq) =
        (if even (count_list pre 0x22) then flag else \<not> flag)"
    by (simp add: flag_def)
  from Cons [of rows1 cur1 flag] obtain rows' cur' where
    "\<forall>rest. splitLoop (pre @ rest) rows1 cur1 flag =
       splitLoop rest rows' cur' (if even (count_list pre 0x22) then flag else \<not> flag)"
    by blast
  then have "\<forall>rest. splitLoop ((c # pre) @ rest) rows cur inq =
       splitLoop rest rows' cur' (if even (count_list (c # pre) 0x22) then inq else \<not> inq)"
    unfolding step parity .
  then show ?case by blast
qed

lemma in_set_dropWhile: "x \<in> set s \<Longrightarrow> \<not> P x \<Longrightarrow> x \<in> set (dropWhile P s)"
  by (induction s) auto

lemma trim_nonempty: "x \<in> set s \<Longrightarrow> \<not> isWhiteSpace x \<Longrightarrow> trim s \<noteq> []"
proof -
  assume "x \<in> set s" "\<not> isWhiteSpace x"
  then have "x \<in> set (dropWhile isWhiteSpace s)" by (rule in_set_dropWhile)
  then have "x \<in> set (rev (dropWhile isWhiteSpace s))" by simp
  then have "x \<in> set (dropWhile isWhiteSpace (rev (dropWhile isWhiteSpace s)))"
    using \<open>\<not> isWhiteSpace x\<close> by (rule in_set_dropWhile)
  then have "x \<in> set (trim s)" by (simp add: trim_def trimStart_def trimEnd_def)
  then show ?thesis by auto
qed

lemma splitLoop_keeps_rows: "set rows \<subseteq> set (splitLoop s rows cur inq)"
proof (induction s arbitrary: rows cur inq)
  case Nil
  show ?case by auto
next
  case (Cons c s)
  show ?case
    using Cons [of rows "cur @ [c]"] Cons [of "rows @ [cur]" "[]"] Cons [of rows "[]"]
    by (auto simp: Let_def)
qed

text \<open>A row that holds a unit other than white space is emitted, with whatever follows it.\<close>

lemma splitLoop_emits_current:
  "x \<in> set cur \<Longrightarrow> \<not> isWhiteSpace x \<Longrightarrow> \<exists>b. cur @ b \<in> set (splitLoop s rows cur inq)"
proof (induction s arbitrary: rows cur inq)
  case Nil
  then have "trim cur \<noteq> []" by (rule trim_nonempty)
  then have "cur @ [] \<in> set (splitLoop [] rows cur inq)" by simp
  then show ?case by blast
next
  case (Cons c s)
  show ?case
  proof (cases "c = 0x0A \<and> \<not> (if c = 0x22 then \<not> inq else inq)")
    case True
    from True have c: "c = 0x0A" "\<not> inq" by (auto split: if_splits)
    from Cons.prems have "trim cur \<noteq> []" by (rule trim_nonempty)
    with c have "splitLoop (c # s) rows cur inq = splitLoop s (rows @ [cur]) [] inq"
      by (simp add: Let_def)
    moreover have "cur \<in> set (splitLoop s (rows @ [cur]) [] inq)"
      using splitLoop_keeps_rows [of "rows @ [cur]" s "[]" inq] by auto
    ultimately have "cur @ [] \<in> set (splitLoop (c # s) rows cur inq)" by simp
    then show ?thesis by blast
  next
    case False
    then have e: "splitLoop (c # s) rows cur inq =
        splitLoop s rows (cur @ [c]) (if c = 0x22 then \<not> inq else inq)"
      by (auto simp: Let_def)
    from Cons.prems have "x \<in> set (cur @ [c])" by simp
    from Cons.IH [OF this Cons.prems(2)] obtain b where
      "(cur @ [c]) @ b \<in> set (splitLoop s rows (cur @ [c]) (if c = 0x22 then \<not> inq else inq))"
      by blast
    with e have "cur @ (c # b) \<in> set (splitLoop (c # s) rows cur inq)" by simp
    then show ?thesis by blast
  qed
qed

lemma normalizedData_quoted:
  "normalizedData (pre @ 0x22 # escapeQuotes f @ 0x22 # post) =
   trimStart (replaceCrLf pre) @ 0x22 # escapeQuotes (replaceCrLf f) @ 0x22 # trimEnd (replaceCrLf post)"
proof -
  have q: "\<not> isWhiteSpace 0x22" by (simp add: isWhiteSpace_def)
  have "trim (replaceCrLf pre @ 0x22 # escapeQuotes (replaceCrLf f) @ 0x22 # replaceCrLf post) =
        trimEnd ((trimStart (replaceCrLf pre) @ 0x22 # escapeQuotes (replaceCrLf f)) @
                   0x22 # replaceCrLf post)"
    unfolding trim_def using trimStart_append_stop [OF q] by simp
  also have "\<dots> = (trimStart (replaceCrLf pre) @ 0x22 # escapeQuotes (replaceCrLf f)) @
                   0x22 # trimEnd (replaceCrLf post)"
    using q by (rule trimEnd_append_stop)
  finally show ?thesis by (simp add: normalizedData_def replaceCrLf_quoted)
qed

lemma quoted_field_in_one_row:
  assumes "even (count_list pre 0x22)"
  shows "\<exists>a b. a @ 0x22 # escapeQuotes (replaceCrLf f) @ 0x22 # b \<in>
           set (splitRows (pre @ 0x22 # escapeQuotes f @ 0x22 # post))"
proof -
  define pre' where "pre' = trimStart (replaceCrLf pre)"
  define post' where "post' = trimEnd (replaceCrLf post)"
  define g where "g = replaceCrLf f"
  have q: "\<not> isWhiteSpace 0x22" by (simp add: isWhiteSpace_def)
  have "count_list pre' 0x22 = count_list pre 0x22"
    by (simp add: pre'_def count_trimStart [OF q] count_replaceCrLf)
  with assms have ev: "even (count_list pre' 0x22)" by simp
  from splitLoop_prefix [of pre' "[]" "[]" False] ev obtain rows' cur' where
    "\<And>rest. splitLoop (pre' @ rest) [] [] False = splitLoop rest rows' cur' False"
    by auto
  then have "splitLoop (pre' @ 0x22 # escapeQuotes g @ 0x22 # post') [] [] False =
        splitLoop (0x22 # escapeQuotes g @ 0x22 # post') rows' cur' False" .
  also have "\<dots> = splitLoop post' rows' (cur' @ 0x22 # escapeQuotes g @ [0x22]) False"
    by (rule splitLoop_quoted_span)
  finally have s: "splitRows (pre @ 0x22 # escapeQuotes f @ 0x22 # post) =
        splitLoop post' rows' (cur' @ 0x22 # escapeQuotes g @ [0x22]) False"
    by (simp add: splitRows_def normalizedData_quoted pre'_def post'_def g_def)
  have "0x22 \<in> set (cur' @ 0x22 # escapeQuotes g @ [0x22])" by simp
  from splitLoop_emits_current [OF this q] obtain b where
    "(cur' @ 0x22 # escapeQuotes g @ [0x22]) @ b \<in>
       set (splitLoop post' rows' (cur' @ 0x22 # escapeQuotes g @ [0x22]) False)"
    by blast
  then have "cur' @ 0x22 # escapeQuotes g @ 0x22 # b \<in>
       set (splitRows (pre @ 0x22 # escapeQuotes f @ 0x22 # post))"
    by (simp add: s)
  then show ?thesis unfolding g_def by blast
qed

lemma fieldLoop_csvField:
  assumes "\<forall>g. x = Inl g \<longrightarrow> 0x22 \<notin> set g \<and> 0x2C \<notin> set g" and "t = [] \<or> hd t = 0x2C"
  shows "fieldLoop (csvField x @ t) fields [] False = fieldLoop t fields (fieldContent x) False"
proof (cases x)
  case (Inl g)
  with assms(1) have "0x22 \<notin> set g" "0x2C \<notin> set g" by simp_all
  from fieldLoop_plain [OF this, of t fields "[]"] Inl show ?thesis by simp
next
  case (Inr f)
  have "fieldLoop ((0x22 # escapeQuotes f @ [0x22]) @ t) fields [] False =
        fieldLoop (escapeQuotes f @ 0x22 # t) fields [] True"
    by simp
  also have "\<dots> = fieldLoop (0x22 # t) fields f True"
    using fieldLoop_quoted_body [of f "0x22 # t" fields "[]"] by simp
  also have "\<dots> = fieldLoop t fields f False"
    using assms(2) by (cases t) simp_all
  finally show ?thesis using Inr by simp
qed

lemma fieldLoop_csvFields:
  "\<forall>g. Inl g \<in> set xs \<longrightarrow> 0x22 \<notin> set g \<and> 0x2C \<notin> set g \<Longrightarrow>
   fieldLoop (concat (map (\<lambda>y. 0x2C # csvField y) xs)) fields cur False =
   fields @ cur # map fieldContent xs"
proof (induction xs arbitrary: fields cur)
  case Nil
  show ?case by simp
next
  case (Cons y ys)
  define t where "t = concat (map (\<lambda>y. 0x2C # csvField y) ys)"
  have t: "t = [] \<or> hd t = 0x2C" by (cases ys) (simp_all add: t_def)
  from Cons.prems have y: "\<forall>g. y = Inl g \<longrightarrow> 0x22 \<notin> set g \<and> 0x2C \<notin> set g"
    and ys: "\<forall>g. Inl g \<in> set ys \<longrightarrow> 0x22 \<notin> set g \<and> 0x2C \<notin> set g" by auto
  have "fieldLoop (concat (map (\<lambda>y. 0x2C # csvField y) (y # ys))) fields cur False =
        fieldLoop (csvField y @ t) (fields @ [cur]) [] False"
    by (simp add: t_def)
  also have "\<dots> = fieldLoop t (fields @ [cur]) (fieldContent y) False"
    using y t by (rule fieldLoop_csvField)
  also have "\<dots> = (fields @ [cur]) @ fieldContent y # map fieldContent ys"
    unfolding t_def using ys by (rule Cons.IH)
  finally show ?case by simp
qed

text \<open>A row of plain and double-quoted fields splits into what the fields denote.\<close>

lemma parseCsvRow_csvFields:
  assumes "\<forall>g. Inl g \<in> set (x # xs) \<longrightarrow> 0x22 \<notin> set g \<and> 0x2C \<notin> set g"
  shows "parseCsvRow (csvField x @ concat (map (\<lambda>y. 0x2C # csvField y) xs)) =
           map fieldContent (x # xs)"
proof -
  define t where "t = concat (map (\<lambda>y. 0x2C # csvField y) xs)"
  have t: "t = [] \<or> hd t = 0x2C" by (cases xs) (simp_all add: t_def)
  from assms have x: "\<forall>g. x = Inl g \<longrightarrow> 0x22 \<notin> set g \<and> 0x2C \<notin> set g"
    and xs: "\<forall>g. Inl g \<in> set xs \<longrightarrow> 0x22 \<notin> set g \<and> 0x2C \<notin> set g" by auto
  have "parseCsvRow (csvField x @ t) = fieldLoop t [] (fieldContent x) False"
    unfolding parseCsvRow_def using x t by (rule fieldLoop_csvField)
  also have "\<dots> = [] @ fieldContent x # map fieldContent xs"
    unfolding t_def using xs by (rule fieldLoop_csvFields)
  finally show ?thesis by (simp add: t_def)
qed

lemma quoted_field_in_record:
  assumes rows: "splitRows data = row0 # rs" and i: "i < length rs"
    and shape: "trim (rs ! i) = csvField x @ concat (map (\<lambda>y. 0x2C # csvField y) xs)"
    and plain: "\<forall>g. Inl g \<in> set (x # xs) \<longrightarrow> 0x22 \<notin> set g \<and> 0x2C \<notin> set g"
    and jx: "j < length (x # xs)" and quoted: "(x # xs) ! j = Inr f"
    and j: "j < length (parseCsvRow row0)"
    and key: "key = trim (parseCsvRow row0 ! j)"
    and fresh: "key \<notin> set (drop (Suc j) (map trim (parseCsvRow row0)))"
    and proto: "key \<noteq> u16 ''__proto__''" and own: "\<not> stateKey key"
    and textual: "\<not> numericKey key" "\<not> flagKey key"
  shows "\<exists>built. mapRows (map trim (parseCsvRow row0)) rs 0 = Inr built \<and>
           length built = length rs \<and> parseCSV data = Inr (filter bodyKept built) \<and>
           (built ! i) key = Some (JStr f) \<and>
           (bodyKept (built ! i) \<longrightarrow>
              (\<exists>stories. parseCSV data = Inr stories \<and> built ! i \<in> set stories))"
proof -
  have vs: "parseCsvRow (trim (rs ! i)) = map fieldContent (x # xs)"
    unfolding shape using plain by (rule parseCsvRow_csvFields)
  from jx have jv: "j < length (map fieldContent (x # xs))" by simp
  have "map fieldContent (x # xs) ! j = fieldContent ((x # xs) ! j)"
    using jx by (rule nth_map)
  with quoted have eq: "map fieldContent (x # xs) ! j = f" by simp
  have pv: "arrayGet (padValues (map fieldContent (x # xs)) (length (parseCsvRow row0))) j =
      Some (map fieldContent (x # xs) ! j)"
    using jv by (rule padded_value)
  have "fieldValue key
      (arrayGet (padValues (parseCsvRow (trim (rs ! i))) (length (parseCsvRow row0))) j) =
      Inr (JStr f)"
    unfolding vs fieldValue_text [OF textual] pv eq by simp
  with built_record_field [OF rows i j key fresh proto own] obtain built where
    b: "mapRows (map trim (parseCsvRow row0)) rs 0 = Inr built" "length built = length rs"
      "parseCSV data = Inr (filter bodyKept built)" "(built ! i) key = Some (JStr f)"
    by auto
  have "\<exists>stories. parseCSV data = Inr stories \<and> built ! i \<in> set stories"
    if "bodyKept (built ! i)"
  proof -
    from i b(2) have "built ! i \<in> set built" by simp
    with that have "built ! i \<in> set (filter bodyKept built)" by simp
    with b(3) show ?thesis by blast
  qed
  with b show ?thesis by blast
qed

lemma sample_multiline_rows:
  \<open>splitRows (u16 ''title,rewritten_story\<newline>t1,plain body\<newline>"t,2","two\<newline>lines ""x"""\<newline>t3,last body'') =
     [u16 ''title,rewritten_story'', u16 ''t1,plain body'', u16 ''"t,2","two\<newline>lines ""x"""'', u16 ''t3,last body'']\<close>
  by (simp add: decoder_eval)

lemma sample_multiline_decoded:
  \<open>map_sum id (map (\<lambda>st. [st (u16 ''title''), st (u16 ''rewritten_story'')]))
     (parseCSV (u16 ''title,rewritten_story\<newline>t1,plain body\<newline>"t,2","two\<newline>lines ""x"""\<newline>t3,last body'')) =
   Inr [[Some (JStr (u16 ''t1'')), Some (JStr (u16 ''plain body''))],
        [Some (JStr (u16 ''t,2'')), Some (JStr (u16 ''two\<newline>lines "x"''))],
        [Some (JStr (u16 ''t3'')), Some (JStr (u16 ''last body''))]]\<close>
  by (simp add: decoder_eval)

text \<open>
  C1. A double-quoted field is a quote, the content with every quote doubled, and a quote.
  For every blob, a double-quoted field that the row splitter meets outside a quoted span
  (after an even number of quote units) lies as a whole inside one of the rows the
  splitter returns, its line feeds included (a CR LF pair inside it has become a line feed
  before). For every blob and every data row made of plain and double-quoted fields, the
  record built from that row holds the content of a double-quoted field, line feeds and
  quotes literal, under the name of its column, when that name is a text column not named
  again later; the decoder returns the built records that pass the filter on the body
  text, this record among them when it passes.
\<close>

theorem quoted_newline_stays_in_row:
  "(even (count_list pre 0x22) \<longrightarrow>
      (\<exists>a b. a @ 0x22 # escapeQuotes (replaceCrLf f) @ 0x22 # b \<in>
               set (splitRows (pre @ 0x22 # escapeQuotes f @ 0x22 # post)))) \<and>
   (splitRows data = row0 # rs \<and> i < length rs \<and>
    trim (rs ! i) = csvField x @ concat (map (\<lambda>y. 0x2C # csvField y) xs) \<and>
    (\<forall>g. Inl g \<in> set (x # xs) \<longrightarrow> 0x22 \<notin> set g \<and> 0x2C \<notin> set g) \<and>
    j < length (x # xs) \<and> (x # xs) ! j = Inr f \<and>
    j < length (parseCsvRow row0) \<and> key = trim (parseCsvRow row0 ! j) \<and>
    key \<notin> set (drop (Suc j) (map trim (parseCsvRow row0))) \<and>
    key \<noteq> u16 ''__proto__'' \<and> \<not> stateKey key \<and> \<not> numericKey key \<and> \<not> flagKey key \<longrightarrow>
      (\<exists>built. mapRows (map trim (parseCsvRow row0)) rs 0 = Inr built \<and>
         length built = length rs \<and> parseCSV data = Inr (filter bodyKept built) \<and>
         (built ! i) key = Some (JStr f) \<and>
         (bodyKept (built ! i) \<longrightarrow>
            (\<exists>stories. parseCSV data = Inr stories \<and> built ! i \<in> set stories))))"
proof (intro conjI impI)
  assume "even (count_list pre 0x22)"
  then show "\<exists>a b. a @ 0x22 # escapeQuotes (replaceCrLf f) @ 0x22 # b \<in>
               set (splitRows (pre @ 0x22 # escapeQuotes f @ 0x22 # post))"
    by (rule quoted_field_in_one_row)
next
  assume a: "splitRows data = row0 # rs \<and> i < length rs \<and>
    trim (rs ! i) = csvField x @ concat (map (\<lambda>y. 0x2C # csvField y) xs) \<and>
    (\<forall>g. Inl g \<in> set (x # xs) \<longrightarrow> 0x22 \<notin> set g \<and> 0x2C \<notin> set g) \<and>
    j < length (x # xs) \<and> (x # xs) ! j = Inr f \<and>
    j < length (parseCsvRow row0) \<and> key = trim (parseCsvRow row0 ! j) \<and>
    key \<notin> set (drop (Suc j) (map trim (parseCsvRow row0))) \<and>
    key \<noteq> u16 ''__proto__'' \<and> \<not> stateKey key \<and> \<not> numericKey key \<and> \<not> flagKey key"
  show "\<exists>built. mapRows (map trim (parseCsvRow row0)) rs 0 = Inr built \<and>
         length built = length rs \<and> parseCSV data = Inr (filter bodyKept built) \<and>
         (built ! i) key = Some (JStr f) \<and>
         (bodyKept (built ! i) \<longrightarrow>
            (\<exists>stories. parseCSV data = Inr stories \<and> built ! i \<in> set stories))"
  proof (rule quoted_field_in_record)
    from a show "splitRows data = row0 # rs" and "i < length rs"
      and "trim (rs ! i) = csvField x @ concat (map (\<lambda>y. 0x2C # csvField y) xs)"
      and "\<forall>g. Inl g \<in> set (x # xs) \<longrightarrow> 0x22 \<notin> set g \<and> 0x2C \<notin> set g"
      and "j < length (x # xs)" and "(x # xs) ! j = Inr f"
      and "j < length (parseCsvRow row0)" and "key = trim (parseCsvRow row0 ! j)"
      and "key \<notin> set (drop (Suc j) (map trim (parseCsvRow row0)))"
      and "key \<noteq> u16 ''__proto__''" and "\<not> stateKey key"
      and "\<not> numericKey key" and "\<not> flagKey key"
      by - (elim conjE, assumption)+
  qed
qed

theorem quoted_newline_stays_in_row_witness:
  \<open>even (count_list (u16 ''title,rewritten_story\<newline>t1,plain body\<newline>"t,2",'') 0x22) \<and>
   splitRows (u16 ''title,rewritten_story\<newline>t1,plain body\<newline>"t,2","two\<newline>lines ""x"""\<newline>t3,last body'') =
     [u16 ''title,rewritten_story'', u16 ''t1,plain body'', u16 ''"t,2","two\<newline>lines ""x"""'', u16 ''t3,last body''] \<and>
   (\<exists>a b. a @ u16 ''"two\<newline>lines ""x"""'' @ b \<in> set (splitRows (u16 ''title,rewritten_story\<newline>t1,plain body\<newline>"t,2","two\<newline>lines ""x"""\<newline>t3,last body''))) \<and>
   (\<exists>built.
      mapRows (map trim (parseCsvRow (u16 ''title,rewritten_story'')))
        [u16 ''t1,plain body'', u16 ''"t,2","two\<newline>lines ""x"""'', u16 ''t3,last body''] 0 = Inr built \<and>
      length built = 3 \<and>
      parseCSV (u16 ''title,rewritten_story\<newline>t1,plain body\<newline>"t,2","two\<newline>lines ""x"""\<newline>t3,last body'') = Inr (filter bodyKept built) \<and>
      (built ! 1) (u16 ''rewritten_story'') = Some (JStr (u16 ''two\<newline>lines "x"'')) \<and>
      (\<exists>stories. parseCSV (u16 ''title,rewritten_story\<newline>t1,plain body\<newline>"t,2","two\<newline>lines ""x"""\<newline>t3,last body'') = Inr stories \<and> built ! 1 \<in> set stories)) \<and>
   map_sum id (map (\<lambda>st. [st (u16 ''title''), st (u16 ''rewritten_story'')]))
     (parseCSV (u16 ''title,rewritten_story\<newline>t1,plain body\<newline>"t,2","two\<newline>lines ""x"""\<newline>t3,last body'')) =
   Inr [[Some (JStr (u16 ''t1'')), Some (JStr (u16 ''plain body''))],
        [Some (JStr (u16 ''t,2'')), Some (JStr (u16 ''two\<newline>lines "x"''))],
        [Some (JStr (u16 ''t3'')), Some (JStr (u16 ''last body''))]]\<close>
proof -
  define pre where \<open>pre = u16 ''title,rewritten_story\<newline>t1,plain body\<newline>"t,2",''\<close>
  define f where \<open>f = u16 ''two\<newline>lines "x"''\<close>
  define post where "post = u16 ''\<newline>t3,last body''"
  define hdr where "hdr = u16 ''title,rewritten_story''"
  define rs where \<open>rs = [u16 ''t1,plain body'', u16 ''"t,2","two\<newline>lines ""x"""'', u16 ''t3,last body'']\<close>
  define blob where \<open>blob = u16 ''title,rewritten_story\<newline>t1,plain body\<newline>"t,2","two\<newline>lines ""x"""\<newline>t3,last body''\<close>
  have blob: "pre @ 0x22 # escapeQuotes f @ 0x22 # post = blob"
    by (simp add: pre_def f_def post_def blob_def u16_def)
  have field: \<open>0x22 # escapeQuotes (replaceCrLf f) @ 0x22 # b = u16 ''"two\<newline>lines ""x"""'' @ b\<close> for b
    by (simp add: f_def u16_def)
  have ev: "even (count_list pre 0x22)" by (simp add: pre_def u16_def)
  have rows: "splitRows blob = hdr # rs"
    unfolding blob_def hdr_def rs_def by (rule sample_multiline_rows)
  have hyp: "splitRows blob = hdr # rs \<and> 1 < length rs \<and>
    trim (rs ! 1) = csvField (Inr (u16 ''t,2'')) @ concat (map (\<lambda>y. 0x2C # csvField y) [Inr f]) \<and>
    (\<forall>g. Inl g \<in> set (Inr (u16 ''t,2'') # [Inr f]) \<longrightarrow> 0x22 \<notin> set g \<and> 0x2C \<notin> set g) \<and>
    1 < length (Inr (u16 ''t,2'') # [Inr f]) \<and> (Inr (u16 ''t,2'') # [Inr f]) ! 1 = Inr f \<and>
    1 < length (parseCsvRow hdr) \<and>
    u16 ''rewritten_story'' = trim (parseCsvRow hdr ! 1) \<and>
    u16 ''rewritten_story'' \<notin> set (drop (Suc 1) (map trim (parseCsvRow hdr))) \<and>
    u16 ''rewritten_story'' \<noteq> u16 ''__proto__'' \<and> \<not> stateKey (u16 ''rewritten_story'') \<and>
    \<not> numericKey (u16 ''rewritten_story'') \<and> \<not> flagKey (u16 ''rewritten_story'')"
    unfolding rows
    by (simp add: rs_def hdr_def f_def parseCsvRow_def trim_def trimStart_def trimEnd_def
        isWhiteSpace_def u16_def)
  note t = quoted_newline_stays_in_row [where pre = pre and f = f and post = post
      and data = blob and ?row0.0 = hdr and rs = rs and i = 1
      and x = "Inr (u16 ''t,2'')" and xs = "[Inr f]" and j = 1 and key = "u16 ''rewritten_story''"]
  from t [THEN conjunct1, THEN mp, OF ev]
  have one: \<open>\<exists>a b. a @ u16 ''"two\<newline>lines ""x"""'' @ b \<in> set (splitRows blob)\<close>
    unfolding blob field .
  from t [THEN conjunct2, THEN mp, OF hyp] obtain built where
    b1: "mapRows (map trim (parseCsvRow hdr)) rs 0 = Inr built" and
    b2: "length built = length rs" and
    b3: "parseCSV blob = Inr (filter bodyKept built)" and
    b4: "(built ! 1) (u16 ''rewritten_story'') = Some (JStr f)" and
    b5: "bodyKept (built ! 1) \<longrightarrow> (\<exists>stories. parseCSV blob = Inr stories \<and> built ! 1 \<in> set stories)"
    by (elim exE conjE)
  from b2 have l3: "length built = 3" by (simp add: rs_def)
  have "1 < length (trim f)"
    by (simp add: f_def trim_def trimStart_def trimEnd_def isWhiteSpace_def u16_def)
  with b4 have "bodyKept (built ! 1)" by simp
  with b5 have b6: "\<exists>stories. parseCSV blob = Inr stories \<and> built ! 1 \<in> set stories" by (rule mp)
  have two: "\<exists>built.
      mapRows (map trim (parseCsvRow hdr)) rs 0 = Inr built \<and> length built = 3 \<and>
      parseCSV blob = Inr (filter bodyKept built) \<and>
      (built ! 1) (u16 ''rewritten_story'') = Some (JStr f) \<and>
      (\<exists>stories. parseCSV blob = Inr stories \<and> built ! 1 \<in> set stories)"
    by (rule exI [of _ built]) (intro conjI, rule b1, rule l3, rule b3, rule b4, rule b6)
  from ev [unfolded pre_def] sample_multiline_rows one [unfolded blob_def]
    two [unfolded hdr_def rs_def blob_def f_def] sample_multiline_decoded
  show ?thesis by (intro conjI)
qed

end
